theory Spec2Isabelle
  imports Main "HOL-Library.Sublist" "HOL-Library.Product_Lexorder" "HOL-Library.Word"
begin

section \<open>The API client (frontend/src/lib/api.ts)\<close>

text \<open>
  The client is an axios instance with one request and one response interceptor and a
  module variable \<open>currentToken\<close>. A request configuration carries the fields the
  interceptors read or write: the url (possibly undefined), the method, the
  \<open>Authorization\<close> header and the \<open>_retry\<close> mark that the response interceptor puts on
  a configuration it has already retried.
\<close>

record request_config =
  url :: "string option"
  http_method :: string
  authorization :: "string option"
  retry :: bool

text \<open>
  A response carries its status and its body. The only field of a body this module reads
  is \<open>access_token\<close>: \<open>None\<close> is a null or undefined body (destructuring it throws a
  TypeError), \<open>Some None\<close> a body without the field, \<open>Some (Some t)\<close> a body with it.
\<close>

record response =
  status :: nat
  data :: "string option option"

text \<open>
  An AxiosError: the configuration of the request it belongs to (\<open>error.config\<close>, possibly
  undefined) and the response, undefined when the network gave none.
\<close>

record axios_error =
  config :: "request_config option"
  err_response :: "response option"

datatype net_result = Replied response | NoReply

text \<open>
  The server is an oracle: its answer may depend on the request and on how many requests
  were sent before it. The client state holds \<open>currentToken\<close>, the default
  \<open>Authorization\<close> header of the instance (\<open>api.defaults.headers.common\<close>) and the log
  of every request that went out, in order.
\<close>

type_synonym server = "nat \<Rightarrow> request_config \<Rightarrow> net_result"

record api_state =
  currentToken :: "string option"
  default_authorization :: "string option"
  sent :: "request_config list"

text \<open>JavaScript truthiness of a possibly undefined string: defined and not empty.\<close>

fun truthy :: "string option \<Rightarrow> bool" where
  "truthy None = False"
| "truthy (Some s) = (s \<noteq> [])"

text \<open>\<open>String.prototype.includes\<close>: the pattern occurs as a contiguous substring.\<close>

fun str_includes :: "string \<Rightarrow> string \<Rightarrow> bool" where
  "str_includes [] p = (p = [])"
| "str_includes (c # cs) p = (prefix p (c # cs) \<or> str_includes cs p)"

text \<open>
  \<open>originalRequest?.url?.includes(p)\<close>: undefined, hence falsy, when the url is
  undefined.
\<close>

definition url_includes :: "request_config \<Rightarrow> string \<Rightarrow> bool" where
  "url_includes r p = (case url r of None \<Rightarrow> False | Some u \<Rightarrow> str_includes u p)"

text \<open>
  The template literal \<open>`Bearer ${token}`\<close>; an undefined token prints as
  \<open>undefined\<close>.
\<close>

definition bearer :: "string option \<Rightarrow> string" where
  "bearer t = ''Bearer '' @ (case t of None \<Rightarrow> ''undefined'' | Some s \<Rightarrow> s)"

definition setAuthToken :: "string option \<Rightarrow> api_state \<Rightarrow> api_state" where
  "setAuthToken token st =
     st\<lparr>currentToken := token, default_authorization := Some (bearer token)\<rparr>"

definition clearAuthToken :: "api_state \<Rightarrow> api_state" where
  "clearAuthToken st = st\<lparr>currentToken := None, default_authorization := None\<rparr>"

text \<open>
  What axios does with a configuration before the request interceptor sees it: the
  instance's default headers are laid under the headers of the request.
\<close>

definition merge_defaults :: "api_state \<Rightarrow> request_config \<Rightarrow> request_config" where
  "merge_defaults st r =
     (case authorization r of
        None \<Rightarrow> r\<lparr>authorization := default_authorization st\<rparr>
      | Some _ \<Rightarrow> r)"

text \<open>The request interceptor (api.ts, lines 36 to 44).\<close>

definition request_interceptor :: "api_state \<Rightarrow> request_config \<Rightarrow> request_config" where
  "request_interceptor st r =
     (if truthy (currentToken st) \<and> \<not> truthy (authorization r)
      then r\<lparr>authorization := Some (bearer (currentToken st))\<rparr>
      else r)"

text \<open>
  Sending: the prepared configuration goes to the server and into the log. Axios resolves
  a reply whose status is in 200..299 and rejects every other reply, and a missing reply,
  with an AxiosError that carries the prepared configuration.
\<close>

definition dispatch ::
  "server \<Rightarrow> api_state \<Rightarrow> request_config \<Rightarrow> api_state \<times> (axios_error + response)" where
  "dispatch srv st r =
     (let r' = request_interceptor st (merge_defaults st r);
          st' = st\<lparr>sent := sent st @ [r']\<rparr>
      in case srv (length (sent st)) r' of
           NoReply \<Rightarrow> (st', Inl \<lparr>config = Some r', err_response = None\<rparr>)
         | Replied resp \<Rightarrow>
             if 200 \<le> status resp \<and> status resp < 300 then (st', Inr resp)
             else (st', Inl \<lparr>config = Some r', err_response = Some resp\<rparr>))"

definition refresh_request :: request_config where
  "refresh_request =
     \<lparr>url = Some ''/api/auth/refresh'', http_method = ''post'',
      authorization = None, retry = False\<rparr>"

text \<open>The condition of the response interceptor's \<open>if\<close> (api.ts, lines 58 to 64).\<close>

definition should_refresh :: "axios_error \<Rightarrow> bool" where
  "should_refresh err =
     (case config err of
        None \<Rightarrow> False
      | Some orig \<Rightarrow>
          map_option status (err_response err) = Some 401 \<and>
          \<not> url_includes orig ''/auth/refresh'' \<and>
          \<not> url_includes orig ''/auth/login'' \<and>
          \<not> retry orig)"

text \<open>
  \<open>originalRequest._retry = true\<close> writes into the object that \<open>error.config\<close> points
  to, so the error that is rejected later carries the mark too.
\<close>

definition mark_retried :: "axios_error \<Rightarrow> axios_error" where
  "mark_retried err = err\<lparr>config := map_option (\<lambda>r. r\<lparr>retry := True\<rparr>) (config err)\<rparr>"

definition rank :: "request_config \<Rightarrow> nat" where
  "rank r =
     (if url_includes r ''/auth/refresh'' \<or> url_includes r ''/auth/login'' \<or> retry r
      then 0 else 1)"

definition err_rank :: "axios_error \<Rightarrow> nat" where
  "err_rank err = (case config err of None \<Rightarrow> 0 | Some r \<Rightarrow> rank r)"

lemma dispatch_err_rank:
  "dispatch srv st r = (st', Inl err) \<Longrightarrow> err_rank err = rank r"
  by (auto simp: dispatch_def Let_def err_rank_def rank_def url_includes_def
      request_interceptor_def merge_defaults_def
      split: net_result.splits if_splits option.splits)

lemma rank_refresh_request: "rank refresh_request = 0"
  by (simp add: rank_def refresh_request_def url_includes_def)

lemma should_refresh_rank: "should_refresh err \<Longrightarrow> err_rank err = 1"
  by (auto simp: should_refresh_def err_rank_def rank_def split: option.splits)

text \<open>
  The recursion is bounded: a handler only calls the instance for a request that it will
  not handle again (the refresh, or a configuration marked as retried).
\<close>

definition call_measure ::
  "server \<times> api_state \<times> request_config + server \<times> api_state \<times> axios_error \<Rightarrow> nat" where
  "call_measure x =
     (case x of
        Inl (srv, st, r) \<Rightarrow> 2 * rank r + 1
      | Inr (srv, st, err) \<Rightarrow> 2 * err_rank err)"

text \<open>
  A call of the instance, \<open>api(config)\<close>, and the rejection handler of the response
  interceptor (api.ts, lines 49 to 85), which calls the instance again: once for the
  refresh and once for the retry. The fulfilment handler is the identity. In the
  \<open>try\<close> block the retried call is returned without \<open>await\<close>, so its rejection is not
  caught there; the \<open>catch\<close> sees a rejected refresh and the TypeError of a refresh
  reply without a body.
\<close>

function api_request ::
    "server \<Rightarrow> api_state \<Rightarrow> request_config \<Rightarrow> api_state \<times> (axios_error + response)"
  and on_rejected ::
    "server \<Rightarrow> api_state \<Rightarrow> axios_error \<Rightarrow> api_state \<times> (axios_error + response)" where
  "api_request srv st r =
     (case dispatch srv st r of
        (st1, Inr resp) \<Rightarrow> (st1, Inr resp)
      | (st1, Inl err) \<Rightarrow> on_rejected srv st1 err)"
| "on_rejected srv st err =
     (if should_refresh err then
        (case api_request srv st refresh_request of
           (st2, Inl _) \<Rightarrow> (clearAuthToken st2, Inl (mark_retried err))
         | (st2, Inr resp) \<Rightarrow>
             (case data resp of
                None \<Rightarrow> (clearAuthToken st2, Inl (mark_retried err))
              | Some access_token \<Rightarrow>
                  api_request srv (setAuthToken access_token st2)
                    ((the (config (mark_retried err)))
                       \<lparr>authorization := Some (bearer access_token)\<rparr>)))
      else (st, Inl err))"
  by pat_completeness auto
termination
  apply (relation "measure call_measure")
  subgoal by simp
  subgoal for srv st r x y a
    using dispatch_err_rank [of srv st r x a] by (simp add: call_measure_def)
  subgoal by (simp add: call_measure_def rank_refresh_request should_refresh_rank)
  subgoal for srv st err
    by (auto simp: call_measure_def should_refresh_rank should_refresh_def
        mark_retried_def rank_def split: option.splits)
  done

declare api_request.simps [simp del] on_rejected.simps [simp del]

text \<open>A request that went to the refresh endpoint, for counting them in the log.\<close>

definition is_refresh_call :: "request_config \<Rightarrow> bool" where
  "is_refresh_call r = url_includes r ''/auth/refresh''"

section \<open>The auth store (store/authStore.ts)\<close>

record user_profile =
  id :: string
  email :: string
  full_name :: "string option"
  is_active :: bool
  created_at :: string

text \<open>The data fields of \<open>AuthState\<close>; the actions are the functions below.\<close>

record auth_state =
  user :: "user_profile option"
  accessToken :: "string option"
  expiresAt :: "int option"
  isAuthenticated :: bool
  isLoading :: bool

text \<open>
  The whole client: the API module's state, the store, the module variables
  \<open>refreshTimeoutId\<close> and \<open>isInitializing\<close>, and the browser's timeouts that have
  been set and have neither fired nor been cleared. The browser hands out timer ids from
  a counter.
\<close>

record client =
  api :: api_state
  store :: auth_state
  refreshTimeoutId :: "nat option"
  isInitializing :: bool
  timers :: "nat list"
  next_timer :: nat

text \<open>\<open>if (refreshTimeoutId)\<close>: null is falsy, and so is the number 0.\<close>

fun timer_truthy :: "nat option \<Rightarrow> bool" where
  "timer_truthy None = False"
| "timer_truthy (Some i) = (i \<noteq> 0)"

definition clearTimeout :: "nat option \<Rightarrow> client \<Rightarrow> client" where
  "clearTimeout t c =
     (case t of None \<Rightarrow> c | Some i \<Rightarrow> c\<lparr>timers := removeAll i (timers c)\<rparr>)"

definition setTimeout :: "client \<Rightarrow> nat \<times> client" where
  "setTimeout c =
     (next_timer c, c\<lparr>timers := timers c @ [next_timer c], next_timer := Suc (next_timer c)\<rparr>)"

definition REFRESH_BUFFER_MS :: int where
  "REFRESH_BUFFER_MS = 30 * 1000"

text \<open>\<open>scheduleTokenRefresh\<close> (authStore.ts, lines 166 to 181); \<open>now\<close> is \<open>Date.now()\<close>.\<close>

definition scheduleTokenRefresh :: "int \<Rightarrow> int \<Rightarrow> client \<Rightarrow> client" where
  "scheduleTokenRefresh expires now c =
     (let c1 = (if timer_truthy (refreshTimeoutId c) then clearTimeout (refreshTimeoutId c) c else c);
          refreshAt = expires - REFRESH_BUFFER_MS;
          delay = refreshAt - now
      in if delay > 0
         then (case setTimeout c1 of (i, c2) \<Rightarrow> c2\<lparr>refreshTimeoutId := Some i\<rparr>)
         else c1)"

text \<open>A pending timeout fires: the browser drops it from its list.\<close>

definition timer_fires :: "nat \<Rightarrow> client \<Rightarrow> client" where
  "timer_fires i c = c\<lparr>timers := removeAll i (timers c)\<rparr>"

definition logout_request :: request_config where
  "logout_request =
     \<lparr>url = Some ''/api/auth/logout'', http_method = ''post'',
      authorization = None, retry = False\<rparr>"

text \<open>
  \<open>logout\<close> (authStore.ts, lines 74 to 95). The \<open>try\<close> awaits the POST and the empty
  \<open>catch\<close> drops its rejection, so both outcomes go on to the same statements; what the
  call did to the API module's state stays.
\<close>

definition logout :: "server \<Rightarrow> client \<Rightarrow> client" where
  "logout srv c =
     (let c1 = (case api_request srv (api c) logout_request of (a, _) \<Rightarrow> c\<lparr>api := a\<rparr>);
          c2 = c1\<lparr>store := (store c1)\<lparr>user := None, accessToken := None,
                                         expiresAt := None, isAuthenticated := False\<rparr>\<rparr>;
          c3 = c2\<lparr>api := clearAuthToken (api c2)\<rparr>
      in if timer_truthy (refreshTimeoutId c3)
         then (clearTimeout (refreshTimeoutId c3) c3)\<lparr>refreshTimeoutId := None\<rparr>
         else c3)"

text \<open>
  The module keeps at most one refresh timeout pending, the one whose id it holds; ids
  that the browser hands out are positive.
\<close>

definition timers_inv :: "client \<Rightarrow> bool" where
  "timers_inv c =
     ((\<forall>i \<in> set (timers c). refreshTimeoutId c = Some i \<and> 0 < i) \<and> 0 < next_timer c)"

section \<open>The ingestion and search core\<close>

text \<open>
  The backend (the FastAPI application with its ingestion and retrieval modules) is not
  among the sources at hand; the frontend only calls it. Its data model and operations
  are written here after sections 3 to 7 of the specification. Identifiers, names, paths
  and messages are opaque strings. The text that is split, embedded, asked and answered
  (page text, chunk content, query, prompt, answer) is a sequence of UTF-16 code units,
  as the search page holds it. An embedding is a list of numbers and a similarity score a
  number (integers stand for the floats). Fields that no operation below reads (file
  size, mime type, creation times, page width and height, chunk type, token count, the
  usefulness flag of a history row) are left out.
\<close>

type_synonym ustring = "16 word list"

text \<open>The text of a literal: a character below 256 is its own code unit.\<close>

definition ustr :: "string \<Rightarrow> ustring" where
  "ustr s = map of_char s"

type_synonym doc_id = string
type_synonym user_id = string
type_synonym vector_id = "doc_id \<times> nat"
type_synonym vec = "int list"
type_synonym score = int

datatype doc_status = Pending | Processing | Completed | Failed

datatype capability = Structured | Degraded

text \<open>Modelled from the spec: the Document row of section 3 (the backend's ORM model).\<close>

record document =
  owner :: user_id
  original_filename :: string
  storage_path :: string
  doc_status :: doc_status
  total_pages :: "nat option"
  processing_error :: "string option"
  processed_at :: "nat option"
  parse_capability :: "capability option"

text \<open>Modelled from the spec: the DocumentPage row of section 3.\<close>

record document_page =
  page_doc :: doc_id
  page_no :: nat
  page_text :: ustring
  image_ref :: "string option"
  vision_description :: "string option"
  has_chart :: bool
  has_table :: bool
  has_image :: bool

text \<open>
  Modelled from the spec: the DocumentChunk row of section 3. The identity of a chunk is
  its document and its index, and that pair is the key of its vector.
\<close>

record document_chunk =
  chunk_doc :: doc_id
  content :: ustring
  chunk_index :: nat
  page_numbers :: "nat list"
  vector_id :: "vector_id option"

text \<open>
  Modelled from the spec: an entry of the vector index (section 6,
  \<open>upsert(id, vector, metadata)\<close>); the metadata is the owner's namespace.
\<close>

record vec_entry =
  entry_id :: vector_id
  entry_vector :: vec
  namespace :: user_id

text \<open>Modelled from the spec: the SearchHistory row of section 3.\<close>

record search_history =
  hist_user :: user_id
  hist_query :: ustring
  hist_response :: ustring
  chunks_retrieved :: nat
  latency_ms :: nat

text \<open>
  What the Ingestion Orchestrator does, in order: the writes it persists and the calls it
  makes to the external services of section 6.
\<close>

datatype action =
    Set_status doc_id doc_status
  | Write_page "doc_id \<times> nat"
  | Write_chunk vector_id
  | Set_vector_id vector_id
  | Call_parser
  | Call_fallback_parser
  | Call_vision nat
  | Call_embed
  | Call_upsert vector_id
  | Call_delete "vector_id list"

fun is_external :: "action \<Rightarrow> bool" where
  "is_external Call_parser = True"
| "is_external Call_fallback_parser = True"
| "is_external (Call_vision _) = True"
| "is_external Call_embed = True"
| "is_external (Call_upsert _) = True"
| "is_external (Call_delete _) = True"
| "is_external _ = False"

text \<open>
  Modelled from the spec: the two shared resources of section 5, the relational store
  (documents, pages, chunks, history) and the vector index, with the identifiers issued
  so far and the actions of the Ingestion Orchestrator so far.
\<close>

record sys =
  documents :: "doc_id \<rightharpoonup> document"
  pages :: "document_page list"
  chunks :: "document_chunk list"
  vindex :: "vec_entry list"
  history :: "search_history list"
  issued :: "doc_id list"
  actions :: "action list"

definition empty_sys :: sys where
  "empty_sys =
     \<lparr>documents = Map.empty, pages = [], chunks = [], vindex = [], history = [],
      issued = [], actions = []\<rparr>"

text \<open>A page as a parser returns it (section 6): number, text, rendered image.\<close>

record parsed_page =
  pp_number :: nat
  pp_text :: ustring
  pp_image :: "string option"

text \<open>
  Modelled from the spec: the external services of section 6, each a function of its
  input; \<open>None\<close> is a call that failed after the adapter's retries (or, for the
  structured parser, that was unavailable). \<open>upsert_ack\<close> tells whether the index
  acknowledges the upsert of an id; \<open>similarity\<close> is the index's measure.
\<close>

record env =
  parse_pdf :: "string \<Rightarrow> parsed_page list option"
  fallback_parse :: "string \<Rightarrow> parsed_page list option"
  describe :: "string \<Rightarrow> (string \<times> bool \<times> bool \<times> bool) option"
  embed :: "ustring \<Rightarrow> vec option"
  upsert_ack :: "vector_id \<Rightarrow> bool"
  similarity :: "vec \<Rightarrow> vec \<Rightarrow> score"
  complete :: "ustring \<Rightarrow> ustring option"

subsection \<open>Tables keyed by identity\<close>

text \<open>
  Modelled from the spec: an upsert (section 4.1, "upserted by (document_id,
  page_number), not appended blindly"): the row takes the place of the rows with its
  key, or is added when there is none.
\<close>

definition upsert :: "('a \<Rightarrow> 'k) \<Rightarrow> 'a \<Rightarrow> 'a list \<Rightarrow> 'a list" where
  "upsert key x xs =
     (if key x \<in> set (map key xs)
      then map (\<lambda>y. if key y = key x then x else y) xs
      else xs @ [x])"

definition upsert_all :: "('a \<Rightarrow> 'k) \<Rightarrow> 'a list \<Rightarrow> 'a list \<Rightarrow> 'a list" where
  "upsert_all key rows xs = fold (upsert key) rows xs"

definition page_key :: "document_page \<Rightarrow> doc_id \<times> nat" where
  "page_key p = (page_doc p, page_no p)"

definition chunk_key :: "document_chunk \<Rightarrow> vector_id" where
  "chunk_key c = (chunk_doc c, chunk_index c)"

text \<open>The rows and entries of one document, and the lookup of a vector by its id.\<close>

definition doc_chunks :: "doc_id \<Rightarrow> sys \<Rightarrow> document_chunk list" where
  "doc_chunks d s = filter (\<lambda>c. chunk_doc c = d) (chunks s)"

definition doc_entries :: "doc_id \<Rightarrow> sys \<Rightarrow> vec_entry list" where
  "doc_entries d s = filter (\<lambda>en. fst (entry_id en) = d) (vindex s)"

definition doc_pages :: "doc_id \<Rightarrow> sys \<Rightarrow> document_page list" where
  "doc_pages d s = filter (\<lambda>p. page_doc p = d) (pages s)"


subsection \<open>The Chunker\<close>

record chunker_config =
  target_tokens :: nat
  overlap_tokens :: nat

definition is_space :: "16 word \<Rightarrow> bool" where
  "is_space c = (c = 0x20 \<or> c = 0x0A \<or> c = 0x09 \<or> c = 0x0D)"

fun words_aux :: "ustring \<Rightarrow> ustring \<Rightarrow> ustring list" where
  "words_aux acc [] = (if acc = [] then [] else [rev acc])"
| "words_aux acc (c # cs) =
     (if is_space c
      then (if acc = [] then words_aux [] cs else rev acc # words_aux [] cs)
      else words_aux (c # acc) cs)"

definition tokens :: "ustring \<Rightarrow> ustring list" where
  "tokens s = words_aux [] s"

text \<open>The page texts in order, each token with the number of the page it comes from.\<close>

definition page_tokens :: "(nat \<times> ustring) list \<Rightarrow> (nat \<times> ustring) list" where
  "page_tokens ps = concat (map (\<lambda>(n, t). map (Pair n) (tokens t)) ps)"

definition ends_sentence :: "ustring \<Rightarrow> bool" where
  "ends_sentence w = (w \<noteq> [] \<and> last w \<in> {0x2E, 0x21, 0x3F})"

text \<open>
  Modelled from the spec: where the Chunker of section 4.2 cuts. All that is left when
  it fits the target; otherwise after the last token that ends a sentence within the
  overlap window before the target, and at the target when there is none.
\<close>

definition choose_cut :: "nat \<Rightarrow> nat \<Rightarrow> (nat \<times> ustring) list \<Rightarrow> nat" where
  "choose_cut target overlap toks =
     (if length toks \<le> target then length toks
      else (case filter (\<lambda>i. ends_sentence (snd (toks ! (i - 1))))
                   (rev [Suc (target - overlap) ..< Suc target]) of
              [] \<Rightarrow> target
            | i # _ \<Rightarrow> i))"

text \<open>
  Modelled from the spec: the segments of section 4.2, bounded by the target and
  overlapping: the next segment starts \<open>overlap\<close> tokens before the cut (and at least
  one token further than this one).
\<close>

function windows ::
  "nat \<Rightarrow> nat \<Rightarrow> (nat \<times> ustring) list \<Rightarrow> (nat \<times> ustring) list list" where
  "windows target overlap toks =
     (if toks = [] \<or> target = 0 then []
      else (let cut = choose_cut target overlap toks
            in if length toks \<le> cut then [toks]
               else take cut toks # windows target overlap (drop (max 1 (cut - overlap)) toks)))"
  by pat_completeness auto
termination
  by (relation "measure (\<lambda>(target, overlap, toks). length toks)") auto

declare windows.simps [simp del]

fun join :: "ustring list \<Rightarrow> ustring" where
  "join [] = []"
| "join [w] = w"
| "join (w # ws) = w @ 0x20 # join ws"

text \<open>
  Modelled from the spec: \<open>chunk(pages)\<close> of section 4.2, from the ordered
  (page number, text) list to the ordered chunks, each with its text and the pages it
  draws text from.
\<close>

definition chunk ::
  "chunker_config \<Rightarrow> (nat \<times> ustring) list \<Rightarrow> (ustring \<times> nat list) list" where
  "chunk cfg ps =
     map (\<lambda>w. (join (map snd w), remdups (map fst w)))
       (windows (target_tokens cfg) (overlap_tokens cfg) (page_tokens ps))"


subsection \<open>The Ingestion Orchestrator\<close>

text \<open>Modelled from the spec: a Document is created on upload, in status pending.\<close>

definition upload :: "doc_id \<Rightarrow> user_id \<Rightarrow> string \<Rightarrow> string \<Rightarrow> sys \<Rightarrow> sys" where
  "upload d u name path s =
     (if d \<in> set (issued s) then s
      else s\<lparr>documents := (documents s)(d \<mapsto>
                \<lparr>owner = u, original_filename = name, storage_path = path,
                 doc_status = Pending, total_pages = None, processing_error = None,
                 processed_at = None, parse_capability = None\<rparr>),
             issued := d # issued s\<rparr>)"

text \<open>
  Modelled from the spec: the lease of section 5, an atomic check-and-set of the status
  from pending to processing. \<open>None\<close> is an attempt that declines.
\<close>

definition acquire :: "doc_id \<Rightarrow> sys \<Rightarrow> sys option" where
  "acquire d s =
     (case documents s d of
        None \<Rightarrow> None
      | Some doc \<Rightarrow>
          if doc_status doc = Pending
          then Some (s\<lparr>documents := (documents s)(d \<mapsto> doc\<lparr>doc_status := Processing\<rparr>),
                       actions := actions s @ [Set_status d Processing]\<rparr>)
          else None)"

text \<open>
  Modelled from the spec: what counts as a parse. Section 3 makes at least one page an
  invariant of a completed document, and section 7 makes a parse that fails entirely
  fatal; so an answer without any page is taken as a failed parse.
\<close>

definition parsed :: "parsed_page list option \<Rightarrow> parsed_page list option" where
  "parsed r = (case r of None \<Rightarrow> None | Some ps \<Rightarrow> if ps = [] then None else Some ps)"

text \<open>
  Modelled from the spec: stage 1 of section 4.1. The structured parser first; when it
  fails or is unavailable, the degraded parser; \<open>None\<close> when both fail.
\<close>

definition parse_stage ::
  "env \<Rightarrow> document \<Rightarrow> action list \<times> (capability \<times> parsed_page list) option" where
  "parse_stage e doc =
     (case parsed (parse_pdf e (storage_path doc)) of
        Some ps \<Rightarrow> ([Call_parser], Some (Structured, ps))
      | None \<Rightarrow>
          (case parsed (fallback_parse e (storage_path doc)) of
             Some ps \<Rightarrow> ([Call_parser, Call_fallback_parser], Some (Degraded, ps))
           | None \<Rightarrow> ([Call_parser, Call_fallback_parser], None)))"

definition page_row :: "doc_id \<Rightarrow> parsed_page \<Rightarrow> document_page" where
  "page_row d pp =
     \<lparr>page_doc = d, page_no = pp_number pp, page_text = pp_text pp, image_ref = pp_image pp,
      vision_description = None, has_chart = False, has_table = False, has_image = False\<rparr>"

text \<open>
  Modelled from the spec: stage 2 of section 4.1 for one page. A page without a rendered
  image has nothing to describe; a failed description leaves the row as it is.
\<close>

definition annotate :: "env \<Rightarrow> document_page \<Rightarrow> document_page" where
  "annotate e p =
     (case image_ref p of
        None \<Rightarrow> p
      | Some img \<Rightarrow>
          (case describe e img of
             None \<Rightarrow> p
           | Some (desc, ch, tb, im) \<Rightarrow>
               p\<lparr>vision_description := Some desc, has_chart := ch, has_table := tb,
                 has_image := im\<rparr>))"

text \<open>
  Modelled from the spec: stage 3 of section 4.1, the rows for the chunks of the parsed
  pages, indexed from 0 in order, without a vector yet.
\<close>

definition chunk_rows :: "chunker_config \<Rightarrow> doc_id \<Rightarrow> parsed_page list \<Rightarrow> document_chunk list" where
  "chunk_rows cfg d ps =
     map (\<lambda>(i, (txt, pns)).
            \<lparr>chunk_doc = d, content = txt, chunk_index = i, page_numbers = pns,
             vector_id = None\<rparr>)
       (enumerate 0 (chunk cfg (map (\<lambda>p. (pp_number p, pp_text p)) ps)))"

text \<open>
  Modelled from the spec: the steps of stages 1 to 4, each one call of an external
  service or one write of one row or one vector (section 5: both stores are atomic per
  row and per key, and nothing larger). A call that only answers is logged. A page or
  chunk row is upserted by its identity, a vector by the chunk's identity, and the
  vector id is set on the row of that identity.
\<close>

datatype step =
    Invoke action
  | Put_page document_page
  | Put_chunk document_chunk
  | Put_vector vec_entry
  | Put_vector_id vector_id

fun perform :: "step \<Rightarrow> sys \<Rightarrow> sys" where
  "perform (Invoke a) s = s\<lparr>actions := actions s @ [a]\<rparr>"
| "perform (Put_page p) s =
     s\<lparr>pages := upsert page_key p (pages s), actions := actions s @ [Write_page (page_key p)]\<rparr>"
| "perform (Put_chunk c) s =
     s\<lparr>chunks := upsert chunk_key c (chunks s),
       actions := actions s @ [Write_chunk (chunk_key c)]\<rparr>"
| "perform (Put_vector en) s =
     s\<lparr>vindex := upsert entry_id en (vindex s),
       actions := actions s @ [Call_upsert (entry_id en)]\<rparr>"
| "perform (Put_vector_id k) s =
     s\<lparr>chunks := map (\<lambda>c. if chunk_key c = k then c\<lparr>vector_id := Some k\<rparr> else c) (chunks s),
       actions := actions s @ [Set_vector_id k]\<rparr>"

text \<open>
  Modelled from the spec: stage 2 of section 4.1 as steps: for a page with a rendered
  image, the call of the Vision Annotator and, when it answers, the write of the
  annotated row.
\<close>

definition annotate_steps :: "env \<Rightarrow> document_page \<Rightarrow> step list" where
  "annotate_steps e p =
     (case image_ref p of
        None \<Rightarrow> []
      | Some img \<Rightarrow>
          (case describe e img of
             None \<Rightarrow> [Invoke (Call_vision (page_no p))]
           | Some _ \<Rightarrow> [Invoke (Call_vision (page_no p)), Put_page (annotate e p)]))"

text \<open>
  Modelled from the spec: stage 4 of section 4.1, chunk after chunk: embed, upsert into
  the owner's namespace under the chunk's identity, and only after the index has
  acknowledged store the vector id in the row. The first failure ends the stage;
  \<open>index_error\<close> is its reason.
\<close>

fun index_steps :: "env \<Rightarrow> user_id \<Rightarrow> document_chunk list \<Rightarrow> step list" where
  "index_steps e u [] = []"
| "index_steps e u (c # cs) =
     (case embed e (content c) of
        None \<Rightarrow> [Invoke Call_embed]
      | Some v \<Rightarrow>
          if upsert_ack e (chunk_key c)
          then Invoke Call_embed
               # Put_vector \<lparr>entry_id = chunk_key c, entry_vector = v, namespace = u\<rparr>
               # Put_vector_id (chunk_key c)
               # index_steps e u cs
          else [Invoke Call_embed, Invoke (Call_upsert (chunk_key c))])"

fun index_error :: "env \<Rightarrow> document_chunk list \<Rightarrow> string option" where
  "index_error e [] = None"
| "index_error e (c # cs) =
     (case embed e (content c) of
        None \<Rightarrow> Some ''embedding failed''
      | Some v \<Rightarrow>
          if upsert_ack e (chunk_key c) then index_error e cs
          else Some ''vector index upsert failed'')"

text \<open>
  Modelled from the spec: the steps of stages 1 to 4 in order, once the parser has
  returned the pages: the page rows, their annotation, the chunk rows, the vectors.
\<close>

definition stage_steps ::
  "env \<Rightarrow> chunker_config \<Rightarrow> doc_id \<Rightarrow> user_id \<Rightarrow> action list \<Rightarrow> parsed_page list \<Rightarrow> step list" where
  "stage_steps e cfg d u calls ps =
     map Invoke calls
     @ map (\<lambda>pp. Put_page (page_row d pp)) ps
     @ concat (map (\<lambda>pp. annotate_steps e (page_row d pp)) ps)
     @ map Put_chunk (chunk_rows cfg d ps)
     @ index_steps e u (chunk_rows cfg d ps)"

text \<open>
  Modelled from the spec: the failure branch of stage 5 of section 4.1: the vectors of
  the document are deleted from the index and the document becomes failed, with the
  reason. The index is keyed by chunk identity (section 2), so the ids to delete are the
  identities of the document's chunk rows; that reaches also a vector whose id was not
  yet stored in its row (section 5), as sections 7 and 8 ask ("any partially written
  vector entries", "no vector entries referencing that document remain").
\<close>

definition fail_document :: "doc_id \<Rightarrow> string \<Rightarrow> sys \<Rightarrow> sys" where
  "fail_document d msg s =
     (let ids = map chunk_key (doc_chunks d s)
      in s\<lparr>vindex := filter (\<lambda>en. entry_id en \<notin> set ids) (vindex s),
           documents := (case documents s d of
                           None \<Rightarrow> documents s
                         | Some doc \<Rightarrow> (documents s)(d \<mapsto>
                             doc\<lparr>doc_status := Failed, processing_error := Some msg\<rparr>)),
           actions := actions s @ [Call_delete ids, Set_status d Failed]\<rparr>)"

text \<open>
  Modelled from the spec: stage 5 of section 4.1: completed when all chunks of the
  document have a vector id, with the page count and the time; failed otherwise.
\<close>

definition finalize :: "capability \<Rightarrow> nat \<Rightarrow> nat \<Rightarrow> doc_id \<Rightarrow> sys \<Rightarrow> sys" where
  "finalize cap n now d s =
     (if list_all (\<lambda>c. chunk_doc c \<noteq> d \<or> vector_id c \<noteq> None) (chunks s)
      then s\<lparr>documents := (case documents s d of
                             None \<Rightarrow> documents s
                           | Some doc \<Rightarrow> (documents s)(d \<mapsto>
                               doc\<lparr>doc_status := Completed, total_pages := Some n,
                                   processed_at := Some now, parse_capability := Some cap\<rparr>)),
             actions := actions s @ [Set_status d Completed]\<rparr>
      else fail_document d ''chunks without a vector'' s)"

text \<open>
  Modelled from the spec: the stage sequence of section 4.1, run by the attempt that
  holds the lease: the steps of stages 1 to 4, then stage 5.
\<close>

definition run_stages :: "env \<Rightarrow> chunker_config \<Rightarrow> nat \<Rightarrow> doc_id \<Rightarrow> sys \<Rightarrow> sys" where
  "run_stages e cfg now d s =
     (case documents s d of
        None \<Rightarrow> s
      | Some doc \<Rightarrow>
          (case parse_stage e doc of
             (calls, None) \<Rightarrow>
               fail_document d ''the document could not be parsed''
                 (fold perform (map Invoke calls) s)
           | (calls, Some (cap, ps)) \<Rightarrow>
               (let s4 = fold perform (stage_steps e cfg d (owner doc) calls ps) s
                in case index_error e (chunk_rows cfg d ps) of
                     Some msg \<Rightarrow> fail_document d msg s4
                   | None \<Rightarrow> finalize cap (length ps) now d s4)))"

text \<open>
  Modelled from the spec: an attempt that dies between processing and completed or
  failed (section 4.1), after \<open>n\<close> of its steps: anywhere in stages 1 to 4, also
  between the upsert of a vector and the write of its id (section 5). The document
  stays in processing.
\<close>

definition crashed_run :: "env \<Rightarrow> chunker_config \<Rightarrow> nat \<Rightarrow> doc_id \<Rightarrow> sys \<Rightarrow> sys" where
  "crashed_run e cfg n d s =
     (case documents s d of
        None \<Rightarrow> s
      | Some doc \<Rightarrow>
          (case parse_stage e doc of
             (calls, None) \<Rightarrow> fold perform (take n (map Invoke calls)) s
           | (calls, Some (cap, ps)) \<Rightarrow>
               fold perform (take n (stage_steps e cfg d (owner doc) calls ps)) s))"

text \<open>
  Modelled from the spec: \<open>ingest(document)\<close> of section 4.1: take the lease, then run
  the stages; an attempt that does not get the lease does nothing.
\<close>

definition ingest :: "env \<Rightarrow> chunker_config \<Rightarrow> nat \<Rightarrow> doc_id \<Rightarrow> sys \<Rightarrow> sys" where
  "ingest e cfg now d s =
     (case acquire d s of
        None \<Rightarrow> s
      | Some s1 \<Rightarrow> run_stages e cfg now d s1)"


text \<open>
  Modelled from the spec: deleting a Document (section 3) cascades to its pages and
  chunks and deletes their vectors.
\<close>

definition delete_document :: "doc_id \<Rightarrow> sys \<Rightarrow> sys" where
  "delete_document d s =
     (let ids = map chunk_key (doc_chunks d s)
      in s\<lparr>documents := (documents s)(d := None),
           pages := filter (\<lambda>p. page_doc p \<noteq> d) (pages s),
           chunks := filter (\<lambda>c. chunk_doc c \<noteq> d) (chunks s),
           vindex := filter (\<lambda>en. entry_id en \<notin> set ids) (vindex s),
           actions := actions s @ [Call_delete ids]\<rparr>)"

subsection \<open>The Retriever\<close>

datatype search_error = Search_failed | Could_not_generate

text \<open>
  Modelled from the spec: what the Retriever returns for a match (section 4.3): the
  chunk, its score and the citation material.
\<close>

record hit =
  hit_chunk :: document_chunk
  hit_score :: score
  hit_document_name :: string
  hit_page :: nat
  hit_image :: "string option"

text \<open>
  Modelled from the spec: \<open>query(vector, namespace, top_k)\<close> of section 6: the
  entries of the namespace, nearest first, ties by the lower chunk index, the first
  \<open>top_k\<close> of them.
\<close>

definition index_query ::
  "env \<Rightarrow> vec \<Rightarrow> user_id \<Rightarrow> nat \<Rightarrow> vec_entry list \<Rightarrow> (vector_id \<times> score) list" where
  "index_query e qv ns k idx =
     take k (sort_key (\<lambda>m. (- snd m, snd (fst m)))
       (map (\<lambda>en. (entry_id en, similarity e qv (entry_vector en)))
          (filter (\<lambda>en. namespace en = ns) idx)))"

definition page_image :: "sys \<Rightarrow> doc_id \<Rightarrow> nat \<Rightarrow> string option" where
  "page_image s d n =
     (case find (\<lambda>p. page_doc p = d \<and> page_no p = n) (pages s) of
        None \<Rightarrow> None
      | Some p \<Rightarrow> image_ref p)"

text \<open>
  Modelled from the spec: resolving a returned vector id back to its chunk, document and
  page (section 4.3). Only the chunks of completed documents are searchable (section 2,
  "Document becomes searchable"; section 4.3, the empty list for an owner without
  completed documents). The cited page is the first page the chunk draws from. An id
  that resolves to no chunk, to no completed document or to no page yields no hit.
\<close>

definition resolve :: "sys \<Rightarrow> vector_id \<times> score \<Rightarrow> hit option" where
  "resolve s m =
     (case find (\<lambda>c. vector_id c = Some (fst m)) (chunks s) of
        None \<Rightarrow> None
      | Some c \<Rightarrow>
          (case documents s (chunk_doc c) of
             None \<Rightarrow> None
           | Some doc \<Rightarrow>
               if doc_status doc \<noteq> Completed then None
               else (case page_numbers c of
                       [] \<Rightarrow> None
                     | n # _ \<Rightarrow>
                         Some \<lparr>hit_chunk = c, hit_score = snd m,
                               hit_document_name = original_filename doc, hit_page = n,
                               hit_image = page_image s (chunk_doc c) n\<rparr>)))"

text \<open>
  Modelled from the spec: \<open>retrieve(query, owner, top_k)\<close> of section 4.3: embed the
  query, query the owner's namespace, resolve the matches. A failed embedding call is
  the "search failed" outcome of section 7.
\<close>

definition retrieve :: "env \<Rightarrow> ustring \<Rightarrow> user_id \<Rightarrow> nat \<Rightarrow> sys \<Rightarrow> search_error + hit list" where
  "retrieve e q u k s =
     (case embed e q of
        None \<Rightarrow> Inl Search_failed
      | Some qv \<Rightarrow> Inr (List.map_filter (resolve s) (index_query e qv u k (vindex s))))"

subsection \<open>The Answer Generator and the Search Orchestrator\<close>

definition no_information_answer :: ustring where
  "no_information_answer = ustr ''No relevant information was found in your documents.''"

fun marker :: "nat \<Rightarrow> ustring" where
  "marker n = ustr (''[Source '' @ replicate n (CHR ''I'') @ '']'')"

text \<open>
  Modelled from the spec: the prompt of section 4.4: the instruction, each chunk's text
  verbatim behind its reference marker, and the question.
\<close>

definition build_prompt :: "ustring \<Rightarrow> hit list \<Rightarrow> ustring" where
  "build_prompt q hits =
     ustr ''Answer only from the context below.'' @
     concat (map (\<lambda>(i, h). marker i @ ustr '' '' @ content (hit_chunk h)) (enumerate 1 hits)) @
     ustr ''Question: '' @ q"

text \<open>
  Modelled from the spec: \<open>generate(query, retrieved_chunks)\<close> of section 4.4. No
  chunks is the answerable "no information found" state of section 4.3; a backend call
  that fails or returns nothing gives no answer.
\<close>

definition generate :: "env \<Rightarrow> ustring \<Rightarrow> hit list \<Rightarrow> ustring option" where
  "generate e q hits =
     (if hits = [] then Some no_information_answer
      else (case complete e (build_prompt q hits) of
              None \<Rightarrow> None
            | Some txt \<Rightarrow> if txt = [] then None else Some txt))"

text \<open>\<open>Citation\<close> and \<open>SearchResult\<close> as the search page declares them (Search.tsx).\<close>

record citation =
  document_id :: string
  document_name :: string
  page_number :: nat
  chunk_content :: ustring
  relevance_score :: score
  image_url :: "string option"

record search_result =
  answer :: ustring
  citations :: "citation list"
  query :: ustring
  processing_time_ms :: int

text \<open>
  Modelled from the spec: the citation for a hit (section 4.5): the image reference only
  if images were asked for, and then the one of the cited page, if it has one.
\<close>

definition citation_of :: "bool \<Rightarrow> hit \<Rightarrow> citation" where
  "citation_of include h =
     \<lparr>document_id = chunk_doc (hit_chunk h), document_name = hit_document_name h,
      page_number = hit_page h, chunk_content = content (hit_chunk h),
      relevance_score = hit_score h,
      image_url = (if include then hit_image h else None)\<rparr>"

text \<open>
  Modelled from the spec: \<open>search(user, query, top_k, include_images)\<close> of section
  4.5: retrieve, generate, write the history row on success; \<open>t0\<close> and \<open>t1\<close> are the
  clock at the start and at the end.
\<close>

definition search ::
  "env \<Rightarrow> int \<Rightarrow> int \<Rightarrow> user_id \<Rightarrow> ustring \<Rightarrow> nat \<Rightarrow> bool \<Rightarrow> sys
     \<Rightarrow> (search_error + search_result) \<times> sys" where
  "search e t0 t1 u q k include s =
     (case retrieve e q u k s of
        Inl err \<Rightarrow> (Inl err, s)
      | Inr hits \<Rightarrow>
          (case generate e q hits of
             None \<Rightarrow> (Inl Could_not_generate, s)
           | Some ans \<Rightarrow>
               (Inr \<lparr>answer = ans, citations = map (citation_of include) hits, query = q,
                     processing_time_ms = t1 - t0\<rparr>,
                s\<lparr>history := history s @
                     [\<lparr>hist_user = u, hist_query = q, hist_response = ans,
                       chunks_retrieved = length hits, latency_ms = nat (t1 - t0)\<rparr>]\<rparr>)))"

subsection \<open>The search page (pages/Search.tsx)\<close>

record search_request =
  req_query :: ustring
  include_images :: bool
  top_k :: nat

text \<open>
  The state of the page: the text of the input (the state variable \<open>query\<close>), the
  flag, the result, the selected citation, and the toasts shown so far (title,
  description).
\<close>

record search_page =
  query_text :: ustring
  isSearching :: bool
  result :: "search_result option"
  selectedCitation :: "citation option"
  toasts :: "(string \<times> string) list"

text \<open>
  \<open>String.prototype.trim\<close> removes the white space and the line terminators of
  ECMAScript from both ends: the code units of TAB, LF, VT, FF, CR, SP, NBSP, the
  Unicode space separators (U+1680, U+2000 to U+200A, U+202F, U+205F, U+3000), LS, PS
  and ZWNBSP.
\<close>

definition js_space :: "16 word \<Rightarrow> bool" where
  "js_space c =
     (c \<in> {0x0009, 0x000A, 0x000B, 0x000C, 0x000D, 0x0020, 0x00A0, 0x1680, 0x2028, 0x2029,
            0x202F, 0x205F, 0x3000, 0xFEFF}
      \<or> (0x2000 \<le> c \<and> c \<le> 0x200A))"

definition trim :: "ustring \<Rightarrow> ustring" where
  "trim s = rev (dropWhile js_space (rev (dropWhile js_space s)))"

text \<open>
  \<open>handleSearch\<close> (Search.tsx, lines 118 to 142). \<open>post\<close> is the outcome of the POST
  to \<open>/api/search/\<close>: the body of the response, or the \<open>detail\<close> of the error, if
  it has one.
\<close>

definition handleSearch ::
  "(search_request \<Rightarrow> string option + search_result) \<Rightarrow> search_page \<Rightarrow> search_page" where
  "handleSearch post p =
     (if trim (query_text p) = [] \<or> isSearching p then p
      else (case post \<lparr>req_query = trim (query_text p), include_images = True, top_k = 5\<rparr> of
              Inr r \<Rightarrow> p\<lparr>isSearching := False, result := Some r, selectedCitation := None\<rparr>
            | Inl detail \<Rightarrow>
                p\<lparr>isSearching := False, result := None, selectedCitation := None,
                  toasts := toasts p @
                    [(''Search Failed'',
                      if truthy detail then the detail else ''Could not complete search'')]\<rparr>))"

text \<open>
  Modelled from the spec: the route behind \<open>POST /api/search/\<close> for the signed-in
  user: the result of \<open>search\<close>, or the \<open>detail\<close> of the failure (section 7).
\<close>

definition search_endpoint ::
  "env \<Rightarrow> int \<Rightarrow> int \<Rightarrow> user_id \<Rightarrow> sys \<Rightarrow> search_request \<Rightarrow> string option + search_result" where
  "search_endpoint e t0 t1 u s req =
     (case fst (search e t0 t1 u (req_query req) (top_k req) (include_images req) s) of
        Inr r \<Rightarrow> Inr r
      | Inl Search_failed \<Rightarrow> Inl (Some ''Search failed'')
      | Inl Could_not_generate \<Rightarrow> Inl (Some ''Could not generate an answer''))"

subsection \<open>Runs of the system\<close>

text \<open>
  Modelled from the spec: the states the system reaches, with the ingestion attempts
  that hold a lease and have not yet run their stages. Documents are uploaded and
  deleted; an attempt takes the lease of a pending document; the reconciliation sweep
  hands the lease of a document that is in processing, and whose attempt is gone, to a
  new attempt (section 4.1); an attempt that holds a lease runs its stages to the end,
  or dies before its first step or after any number of steps; searches are served. The
  services may answer differently from one attempt to the next.
\<close>

inductive reachable :: "chunker_config \<Rightarrow> sys \<times> doc_id list \<Rightarrow> bool" for cfg where
  init: "reachable cfg (empty_sys, [])"
| uploaded: "reachable cfg (s, a) \<Longrightarrow> reachable cfg (upload d u name path s, a)"
| started: "reachable cfg (s, a) \<Longrightarrow> acquire d s = Some s' \<Longrightarrow> reachable cfg (s', d # a)"
| reclaimed: "reachable cfg (s, a) \<Longrightarrow> documents s d = Some doc
     \<Longrightarrow> doc_status doc = Processing \<Longrightarrow> d \<notin> set a \<Longrightarrow> reachable cfg (s, d # a)"
| finished: "reachable cfg (s, a) \<Longrightarrow> d \<in> set a
     \<Longrightarrow> reachable cfg (run_stages e cfg now d s, remove1 d a)"
| died: "reachable cfg (s, a) \<Longrightarrow> reachable cfg (s, remove1 d a)"
| crashed: "reachable cfg (s, a) \<Longrightarrow> d \<in> set a
     \<Longrightarrow> reachable cfg (crashed_run e cfg n d s, remove1 d a)"
| deleted: "reachable cfg (s, a) \<Longrightarrow> reachable cfg (delete_document d s, a)"
| searched: "reachable cfg (s, a)
     \<Longrightarrow> reachable cfg (snd (search e t0 t1 u q k include s), a)"

subsection \<open>Invariants of the runs\<close>

text \<open>
  Of the rows and vectors of one document: a row's vector id is the row's own identity;
  every vector has the identity of a chunk row; every row that holds an id has its
  vector in the index; every vector is in the namespace of \<open>u\<close>.
\<close>

definition ids_own :: "doc_id \<Rightarrow> sys \<Rightarrow> bool" where
  "ids_own d s =
     (\<forall>c \<in> set (chunks s). chunk_doc c = d \<longrightarrow> (\<forall>v. vector_id c = Some v \<longrightarrow> v = chunk_key c))"

definition vectors_have_rows :: "doc_id \<Rightarrow> sys \<Rightarrow> bool" where
  "vectors_have_rows d s =
     (\<forall>en \<in> set (vindex s). fst (entry_id en) = d
         \<longrightarrow> entry_id en \<in> chunk_key ` set (chunks s))"

definition ids_have_vectors :: "doc_id \<Rightarrow> sys \<Rightarrow> bool" where
  "ids_have_vectors d s =
     (\<forall>c \<in> set (chunks s). chunk_doc c = d \<longrightarrow> vector_id c \<noteq> None
         \<longrightarrow> chunk_key c \<in> entry_id ` set (vindex s))"

definition vectors_of_owner :: "doc_id \<Rightarrow> user_id \<Rightarrow> sys \<Rightarrow> bool" where
  "vectors_of_owner d u s =
     (\<forall>en \<in> set (vindex s). fst (entry_id en) = d \<longrightarrow> namespace en = u)"

text \<open>
  What holds while attempts work on a document of owner \<open>u\<close>. A vector may be in the
  index before its row holds the id.
\<close>

definition in_progress :: "doc_id \<Rightarrow> user_id \<Rightarrow> sys \<Rightarrow> bool" where
  "in_progress d u s =
     (ids_own d s \<and> vectors_have_rows d s \<and> ids_have_vectors d s \<and> vectors_of_owner d u s)"

text \<open>
  What holds of one document in a reachable state, by its status; \<open>a\<close> are the
  attempts that hold a lease and have not run their stages.
\<close>

definition doc_ok :: "sys \<Rightarrow> doc_id list \<Rightarrow> doc_id \<Rightarrow> bool" where
  "doc_ok s a d =
     (ids_own d s \<and> vectors_have_rows d s \<and>
      (case documents s d of
         None \<Rightarrow> doc_chunks d s = []
       | Some doc \<Rightarrow>
           vectors_of_owner d (owner doc) s \<and>
           (doc_status doc = Pending \<longrightarrow> doc_chunks d s = []) \<and>
           (d \<in> set a \<longrightarrow> doc_status doc = Processing) \<and>
           (doc_status doc \<noteq> Failed \<longrightarrow> ids_have_vectors d s) \<and>
           (doc_status doc = Completed \<longrightarrow>
              (\<forall>c \<in> set (doc_chunks d s). vector_id c \<noteq> None) \<and>
              (\<exists>n. total_pages doc = Some n \<and> 0 < n) \<and> doc_pages d s \<noteq> []) \<and>
           (doc_status doc = Failed \<longrightarrow>
              processing_error doc \<noteq> None \<and> doc_entries d s = [])))"

text \<open>No table holds two rows of one identity.\<close>

definition keys_distinct :: "sys \<Rightarrow> bool" where
  "keys_distinct s =
     (distinct (map page_key (pages s)) \<and> distinct (map chunk_key (chunks s)) \<and>
      distinct (map entry_id (vindex s)))"

definition sys_inv :: "sys \<times> doc_id list \<Rightarrow> bool" where
  "sys_inv c =
     (case c of (s, a) \<Rightarrow>
        distinct a \<and> set a \<subseteq> set (issued s) \<and>
        (\<forall>d. documents s d \<noteq> None \<longrightarrow> d \<in> set (issued s)) \<and>
        (\<forall>d. doc_ok s a d) \<and> keys_distinct s)"

text \<open>What an operation on one document leaves alone.\<close>

definition others_same :: "doc_id \<Rightarrow> sys \<Rightarrow> sys \<Rightarrow> bool" where
  "others_same d s s' =
     (issued s' = issued s \<and>
      (\<forall>d'. d' \<noteq> d \<longrightarrow>
         documents s' d' = documents s d' \<and> doc_chunks d' s' = doc_chunks d' s \<and>
         doc_entries d' s' = doc_entries d' s \<and> doc_pages d' s' = doc_pages d' s))"

text \<open>
  The steps of an attempt on document \<open>d\<close> of owner \<open>u\<close>: they write rows and vectors
  of that document only, chunk rows without a vector id, vectors into the owner's
  namespace.
\<close>

fun step_of :: "doc_id \<Rightarrow> user_id \<Rightarrow> step \<Rightarrow> bool" where
  "step_of d u (Invoke a) = True"
| "step_of d u (Put_page p) = (page_doc p = d)"
| "step_of d u (Put_chunk c) = (chunk_doc c = d \<and> vector_id c = None)"
| "step_of d u (Put_vector en) = (fst (entry_id en) = d \<and> namespace en = u)"
| "step_of d u (Put_vector_id k) = (fst k = d)"

text \<open>The steps of stages 1 to 3: calls, page rows and chunk rows.\<close>

fun row_step :: "step \<Rightarrow> bool" where
  "row_step (Put_vector en) = False"
| "row_step (Put_vector_id k) = False"
| "row_step st = True"

text \<open>
  The order within an attempt: a vector is upserted after the row of its identity was
  written, and a vector id is set after its vector was upserted.
\<close>

fun in_order :: "sys \<Rightarrow> step list \<Rightarrow> bool" where
  "in_order s [] = True"
| "in_order s (Put_vector en # sts) =
     (entry_id en \<in> chunk_key ` set (chunks s) \<and> in_order (perform (Put_vector en) s) sts)"
| "in_order s (Put_vector_id k # sts) =
     (k \<in> entry_id ` set (vindex s) \<and> in_order (perform (Put_vector_id k) s) sts)"
| "in_order s (st # sts) = in_order (perform st s) sts"

text \<open>The state without the log of the orchestrator's actions.\<close>

definition stores :: "sys \<Rightarrow> sys" where
  "stores s = s\<lparr>actions := []\<rparr>"

subsection \<open>Small instances\<close>

text \<open>
  A chunker of two tokens a chunk without overlap, a one-page file whose text makes two
  chunks, services that all succeed, services whose embedding fails from the second
  chunk on, the state after one upload, the state after an attempt took the lease, and
  the state after two users had a document each ingested.
\<close>

definition cfg2 :: chunker_config where
  "cfg2 = \<lparr>target_tokens = 2, overlap_tokens = 0\<rparr>"

definition one_page :: "parsed_page list" where
  "one_page = [\<lparr>pp_number = 1, pp_text = ustr ''a b c d'', pp_image = Some ''/img/a1.png''\<rparr>]"

definition env_ok :: env where
  "env_ok =
     \<lparr>parse_pdf = (\<lambda>_. Some one_page), fallback_parse = (\<lambda>_. None),
      describe = (\<lambda>_. Some (''a chart'', True, False, False)),
      embed = (\<lambda>t. Some [int (length t)]),
      upsert_ack = (\<lambda>_. True), similarity = (\<lambda>_ _. 0), complete = (\<lambda>_. Some (ustr ''answer''))\<rparr>"


definition uploaded :: sys where
  "uploaded = upload ''d1'' ''alice'' ''a.pdf'' ''/files/a.pdf'' empty_sys"

definition two_users :: sys where
  "two_users =
     ingest env_ok cfg2 8 ''d2''
       (upload ''d2'' ''bob'' ''b.pdf'' ''/files/b.pdf'' (ingest env_ok cfg2 7 ''d1'' uploaded))"





section \<open>Properties of the API client\<close>

lemma on_rejected_pass: "\<not> should_refresh err \<Longrightarrow> on_rejected srv st err = (st, Inl err)"
  by (simp add: on_rejected.simps)

lemma should_refresh_rank0: "err_rank err = 0 \<Longrightarrow> \<not> should_refresh err"
  using should_refresh_rank by fastforce

text \<open>
  A request to the refresh or login endpoint, or one already marked as retried, goes out
  once and its outcome is handed on as it is.
\<close>

lemma api_request_rank0: "rank r = 0 \<Longrightarrow> api_request srv st r = dispatch srv st r"
proof -
  assume r0: "rank r = 0"
  obtain st1 out where d: "dispatch srv st r = (st1, out)" by (cases "dispatch srv st r")
  show ?thesis
  proof (cases out)
    case (Inl err)
    with d have "err_rank err = 0" using dispatch_err_rank r0 by metis
    then have "\<not> should_refresh err" by (rule should_refresh_rank0)
    with d Inl show ?thesis by (simp add: api_request.simps on_rejected.simps)
  next
    case (Inr resp)
    with d show ?thesis by (simp add: api_request.simps)
  qed
qed

lemma dispatch_state:
  "dispatch srv st r = (st', out) \<Longrightarrow>
     st' = st\<lparr>sent := sent st @ [request_interceptor st (merge_defaults st r)]\<rparr>"
  by (auto simp: dispatch_def Let_def split: net_result.splits if_splits)

lemma prepared_url [simp]: "url (request_interceptor st (merge_defaults st r)) = url r"
  by (simp add: request_interceptor_def merge_defaults_def split: option.splits)

lemma prepared_retry [simp]: "retry (request_interceptor st (merge_defaults st r)) = retry r"
  by (simp add: request_interceptor_def merge_defaults_def split: option.splits)

lemma is_refresh_prepared [simp]:
  "is_refresh_call (request_interceptor st (merge_defaults st r)) = is_refresh_call r"
  by (simp add: is_refresh_call_def url_includes_def)

lemma on_rejected_refresh_failed:
  assumes "should_refresh err" "api_request srv st refresh_request = (st2, Inl e)"
  shows "on_rejected srv st err = (clearAuthToken st2, Inl (mark_retried err))"
  using assms by (simp add: on_rejected.simps)

text \<open>What one run of the rejection handler sends: at most the refresh and the retry.\<close>

lemma on_rejected_sent:
  "\<exists>xs. sent (fst (on_rejected srv st err)) = sent st @ xs \<and> length xs \<le> 2
      \<and> length (filter is_refresh_call xs) \<le> 1"
proof (cases "should_refresh err")
  case False
  then show ?thesis by (simp add: on_rejected.simps)
next
  case True
  then obtain orig where orig: "config err = Some orig" "\<not> url_includes orig ''/auth/refresh''"
    by (auto simp: should_refresh_def split: option.splits)
  have rr: "api_request srv st refresh_request = dispatch srv st refresh_request"
    by (rule api_request_rank0) (rule rank_refresh_request)
  obtain st2 out where d: "dispatch srv st refresh_request = (st2, out)"
    by (cases "dispatch srv st refresh_request")
  have st2: "sent st2 = sent st @ [request_interceptor st (merge_defaults st refresh_request)]"
    using dispatch_state [OF d] by simp
  show ?thesis
  proof (cases out)
    case (Inl e)
    with True rr d st2 show ?thesis by (simp add: on_rejected.simps clearAuthToken_def)
  next
    case (Inr resp)
    show ?thesis
    proof (cases "data resp")
      case None
      with True rr d st2 Inr show ?thesis by (simp add: on_rejected.simps clearAuthToken_def)
    next
      case (Some tok)
      let ?r = "(the (config (mark_retried err)))\<lparr>authorization := Some (bearer tok)\<rparr>"
      let ?st3 = "setAuthToken tok st2"
      have r0: "rank ?r = 0" using orig by (simp add: mark_retried_def rank_def)
      have nr: "\<not> is_refresh_call ?r" using orig
        by (simp add: mark_retried_def is_refresh_call_def url_includes_def)
      obtain st4 out4 where d4: "dispatch srv ?st3 ?r = (st4, out4)"
        by (cases "dispatch srv ?st3 ?r")
      have "on_rejected srv st err = dispatch srv ?st3 ?r"
        using True rr d Inr Some api_request_rank0 [OF r0] by (simp add: on_rejected.simps)
      moreover have "sent st4 = sent ?st3 @ [request_interceptor ?st3 (merge_defaults ?st3 ?r)]"
        using dispatch_state [OF d4] by simp
      ultimately show ?thesis using d4 st2 nr
        by (simp add: setAuthToken_def)
    qed
  qed
qed

lemma api_request_sent:
  "\<exists>xs. sent (fst (api_request srv st r)) = sent st @ xs \<and> length xs \<le> 3
      \<and> length (filter is_refresh_call xs) \<le> 1"
proof (cases "rank r = 0")
  case True
  obtain st1 out where d: "dispatch srv st r = (st1, out)" by (cases "dispatch srv st r")
  from dispatch_state [OF d] d True show ?thesis
    by (simp add: api_request_rank0)
next
  case False
  then have nr: "\<not> is_refresh_call r"
    by (auto simp: rank_def is_refresh_call_def split: if_splits)
  obtain st1 out where d: "dispatch srv st r = (st1, out)" by (cases "dispatch srv st r")
  have st1: "sent st1 = sent st @ [request_interceptor st (merge_defaults st r)]"
    using dispatch_state [OF d] by simp
  show ?thesis
  proof (cases out)
    case (Inr resp)
    with d st1 show ?thesis by (simp add: api_request.simps)
  next
    case (Inl err)
    obtain xs where xs: "sent (fst (on_rejected srv st1 err)) = sent st1 @ xs"
      "length xs \<le> 2" "length (filter is_refresh_call xs) \<le> 1"
      using on_rejected_sent by blast
    have "api_request srv st r = on_rejected srv st1 err"
      using d Inl by (simp add: api_request.simps)
    with xs st1 nr show ?thesis by simp
  qed
qed

text \<open>
  C9. Handling one request sends at most three requests, of which at most one goes to the
  refresh endpoint, and handling one rejection sends at most two, of which at most one
  goes to the refresh endpoint: the refresh and the retry happen at most once for an
  original request. A request to \<open>/auth/refresh\<close> or \<open>/auth/login\<close>, or one that
  carries the \<open>_retry\<close> mark, is sent once and never refreshed, and the handler hands
  its rejection on unchanged. When the handler does refresh (status 401) and the refresh
  is rejected, the stored token and the default header are cleared and the caller gets
  the original error, with its 401 response.
\<close>

theorem refresh_and_retry_at_most_once:
  "(\<exists>xs. sent (fst (api_request srv st r)) = sent st @ xs \<and> length xs \<le> 3
        \<and> length (filter is_refresh_call xs) \<le> 1)
   \<and> (\<exists>ys. sent (fst (on_rejected srv st err)) = sent st @ ys \<and> length ys \<le> 2
        \<and> length (filter is_refresh_call ys) \<le> 1)
   \<and> (url_includes r ''/auth/refresh'' \<or> url_includes r ''/auth/login'' \<or> retry r
        \<longrightarrow> api_request srv st r = dispatch srv st r)
   \<and> ((\<exists>orig. config err = Some orig \<and>
           (url_includes orig ''/auth/refresh'' \<or> url_includes orig ''/auth/login''
            \<or> retry orig))
        \<longrightarrow> on_rejected srv st err = (st, Inl err))
   \<and> (should_refresh err \<and> api_request srv st refresh_request = (st2, Inl e)
        \<longrightarrow> on_rejected srv st err = (clearAuthToken st2, Inl (mark_retried err))
          \<and> currentToken (clearAuthToken st2) = None
          \<and> default_authorization (clearAuthToken st2) = None
          \<and> err_response (mark_retried err) = err_response err
          \<and> map_option status (err_response err) = Some 401)"
proof (intro conjI impI)
  show "\<exists>xs. sent (fst (api_request srv st r)) = sent st @ xs \<and> length xs \<le> 3
        \<and> length (filter is_refresh_call xs) \<le> 1"
    by (rule api_request_sent)
  show "\<exists>ys. sent (fst (on_rejected srv st err)) = sent st @ ys \<and> length ys \<le> 2
        \<and> length (filter is_refresh_call ys) \<le> 1"
    by (rule on_rejected_sent)
next
  assume "url_includes r ''/auth/refresh'' \<or> url_includes r ''/auth/login'' \<or> retry r"
  then have "rank r = 0" by (simp add: rank_def)
  then show "api_request srv st r = dispatch srv st r" by (rule api_request_rank0)
next
  assume "\<exists>orig. config err = Some orig \<and>
           (url_includes orig ''/auth/refresh'' \<or> url_includes orig ''/auth/login''
            \<or> retry orig)"
  then have "\<not> should_refresh err" by (auto simp: should_refresh_def)
  then show "on_rejected srv st err = (st, Inl err)" by (rule on_rejected_pass)
next
  assume a: "should_refresh err \<and> api_request srv st refresh_request = (st2, Inl e)"
  then show "on_rejected srv st err = (clearAuthToken st2, Inl (mark_retried err))"
    by (simp add: on_rejected_refresh_failed)
  show "currentToken (clearAuthToken st2) = None" by (simp add: clearAuthToken_def)
  show "default_authorization (clearAuthToken st2) = None" by (simp add: clearAuthToken_def)
  show "err_response (mark_retried err) = err_response err" by (simp add: mark_retried_def)
  from a show "map_option status (err_response err) = Some 401"
    by (auto simp: should_refresh_def split: option.splits)
qed

text \<open>
  An instance: the server answers 401 to everything. A GET of the document list is
  refreshed, the refresh is rejected, and the token is cleared; a login request is sent
  once.
\<close>

theorem refresh_and_retry_at_most_once_witness:
  "should_refresh
     \<lparr>config = Some \<lparr>url = Some ''/api/documents/'', http_method = ''get'',
                      authorization = Some ''Bearer t0'', retry = False\<rparr>,
      err_response = Some \<lparr>status = 401, data = None\<rparr>\<rparr>
   \<and> api_request (\<lambda>n r. Replied \<lparr>status = 401, data = None\<rparr>)
        \<lparr>currentToken = Some ''t0'', default_authorization = Some ''Bearer t0'', sent = []\<rparr>
        refresh_request
      = (\<lparr>currentToken = Some ''t0'', default_authorization = Some ''Bearer t0'',
          sent = [refresh_request\<lparr>authorization := Some ''Bearer t0''\<rparr>]\<rparr>,
         Inl \<lparr>config = Some (refresh_request\<lparr>authorization := Some ''Bearer t0''\<rparr>),
              err_response = Some \<lparr>status = 401, data = None\<rparr>\<rparr>)
   \<and> on_rejected (\<lambda>n r. Replied \<lparr>status = 401, data = None\<rparr>)
        \<lparr>currentToken = Some ''t0'', default_authorization = Some ''Bearer t0'', sent = []\<rparr>
        \<lparr>config = Some \<lparr>url = Some ''/api/documents/'', http_method = ''get'',
                         authorization = Some ''Bearer t0'', retry = False\<rparr>,
         err_response = Some \<lparr>status = 401, data = None\<rparr>\<rparr>
      = (\<lparr>currentToken = None, default_authorization = None,
          sent = [refresh_request\<lparr>authorization := Some ''Bearer t0''\<rparr>]\<rparr>,
         Inl \<lparr>config = Some \<lparr>url = Some ''/api/documents/'', http_method = ''get'',
                             authorization = Some ''Bearer t0'', retry = True\<rparr>,
              err_response = Some \<lparr>status = 401, data = None\<rparr>\<rparr>)
   \<and> url_includes \<lparr>url = Some ''/api/auth/login'', http_method = ''post'',
                    authorization = None, retry = False\<rparr> ''/auth/login''
   \<and> api_request (\<lambda>n r. Replied \<lparr>status = 401, data = None\<rparr>)
        \<lparr>currentToken = Some ''t0'', default_authorization = Some ''Bearer t0'', sent = []\<rparr>
        \<lparr>url = Some ''/api/auth/login'', http_method = ''post'',
         authorization = None, retry = False\<rparr>
      = dispatch (\<lambda>n r. Replied \<lparr>status = 401, data = None\<rparr>)
        \<lparr>currentToken = Some ''t0'', default_authorization = Some ''Bearer t0'', sent = []\<rparr>
        \<lparr>url = Some ''/api/auth/login'', http_method = ''post'',
         authorization = None, retry = False\<rparr>"
proof -
  let ?srv = "\<lambda>(n::nat) (r::request_config). Replied \<lparr>status = 401, data = None\<rparr>"
  let ?st = "\<lparr>currentToken = Some ''t0'', default_authorization = Some ''Bearer t0'',
              sent = []\<rparr>"
  let ?login = "\<lparr>url = Some ''/api/auth/login'', http_method = ''post'',
                 authorization = None, retry = False\<rparr>"
  let ?err = "\<lparr>config = Some \<lparr>url = Some ''/api/documents/'', http_method = ''get'',
                      authorization = Some ''Bearer t0'', retry = False\<rparr>,
               err_response = Some \<lparr>status = 401, data = None\<rparr>\<rparr>"
  let ?st2 = "\<lparr>currentToken = Some ''t0'', default_authorization = Some ''Bearer t0'',
          sent = [refresh_request\<lparr>authorization := Some ''Bearer t0''\<rparr>]\<rparr>"
  let ?e = "\<lparr>config = Some (refresh_request\<lparr>authorization := Some ''Bearer t0''\<rparr>),
              err_response = Some \<lparr>status = 401, data = None\<rparr>\<rparr>"
  have s: "should_refresh ?err"
    by (simp add: should_refresh_def url_includes_def)
  have l: "url_includes ?login ''/auth/login''"
    by (simp add: url_includes_def)
  have f: "api_request ?srv ?st refresh_request = (?st2, Inl ?e)"
    by (simp add: api_request.simps on_rejected.simps dispatch_def should_refresh_def Let_def
        url_includes_def refresh_request_def merge_defaults_def request_interceptor_def)
  from refresh_and_retry_at_most_once
    [where srv = ?srv and st = ?st and r = ?login and err = ?err and ?st2.0 = ?st2 and e = ?e]
    s l f
  show ?thesis by (simp add: clearAuthToken_def mark_retried_def)
qed

section \<open>Properties of the auth store\<close>

lemma api_request_pair: "\<exists>a out. api_request srv st r = (a, out)"
  by (cases "api_request srv st r") simp

text \<open>Scheduling a refresh keeps at most one timeout pending, the one the module holds.\<close>

lemma scheduleTokenRefresh_inv:
  assumes "timers_inv c"
  shows "timers_inv (scheduleTokenRefresh expires now c)"
proof -
  have e: "timer_truthy (refreshTimeoutId c) \<Longrightarrow>
             timers (clearTimeout (refreshTimeoutId c) c) = []"
    using assms
    by (cases "refreshTimeoutId c")
       (auto simp: timers_inv_def clearTimeout_def removeAll_filter_not_eq filter_empty_conv)
  have n: "\<not> timer_truthy (refreshTimeoutId c) \<Longrightarrow> timers c = []"
    using assms by (cases "timers c") (auto simp: timers_inv_def)
  have p: "0 < next_timer c" using assms by (simp add: timers_inv_def)
  show ?thesis
  proof (cases "timer_truthy (refreshTimeoutId c)")
    case True
    with e p show ?thesis
      by (simp add: scheduleTokenRefresh_def Let_def setTimeout_def timers_inv_def
          clearTimeout_def split: option.splits)
  next
    case False
    with n p show ?thesis
      by (simp add: scheduleTokenRefresh_def Let_def setTimeout_def timers_inv_def)
  qed
qed

lemma timer_fires_inv: "timers_inv c \<Longrightarrow> timers_inv (timer_fires i c)"
  by (auto simp: timers_inv_def timer_fires_def)

lemma logout_unfold:
  assumes "api_request srv (api c) logout_request = (a, out)"
  shows "logout srv c =
    (if timer_truthy (refreshTimeoutId c)
     then c\<lparr>api := clearAuthToken a,
            store := (store c)\<lparr>user := None, accessToken := None,
                                 expiresAt := None, isAuthenticated := False\<rparr>,
            timers := removeAll (the (refreshTimeoutId c)) (timers c),
            refreshTimeoutId := None\<rparr>
     else c\<lparr>api := clearAuthToken a,
            store := (store c)\<lparr>user := None, accessToken := None,
                                 expiresAt := None, isAuthenticated := False\<rparr>\<rparr>)"
  using assms
  by (cases "refreshTimeoutId c") (simp_all add: logout_def Let_def clearTimeout_def)

text \<open>
  C10. After \<open>logout\<close>, whatever the server did with the POST (the statement holds for
  every server, so also for one that rejects it): \<open>user\<close>, \<open>accessToken\<close> and
  \<open>expiresAt\<close> are null and \<open>isAuthenticated\<close> is false, the stored token and the
  default Authorization header are cleared, the timeout whose id the module held is no
  longer pending and the id is forgotten; with at most one refresh timeout pending
  before, none is pending after.
\<close>

theorem logout_clears_state:
  "user (store (logout srv c)) = None
   \<and> accessToken (store (logout srv c)) = None
   \<and> expiresAt (store (logout srv c)) = None
   \<and> \<not> isAuthenticated (store (logout srv c))
   \<and> currentToken (api (logout srv c)) = None
   \<and> default_authorization (api (logout srv c)) = None
   \<and> (\<forall>i. refreshTimeoutId c = Some i \<and> i \<noteq> 0
          \<longrightarrow> i \<notin> set (timers (logout srv c)) \<and> refreshTimeoutId (logout srv c) = None)
   \<and> (timers_inv c \<longrightarrow> timers (logout srv c) = [])"
proof -
  obtain a out where r: "api_request srv (api c) logout_request = (a, out)"
    using api_request_pair by blast
  note u = logout_unfold [OF r]
  have t: "timers_inv c \<Longrightarrow> timer_truthy (refreshTimeoutId c) \<Longrightarrow>
             removeAll (the (refreshTimeoutId c)) (timers c) = []"
    by (cases "refreshTimeoutId c")
       (auto simp: timers_inv_def removeAll_filter_not_eq filter_empty_conv)
  have n: "timers_inv c \<Longrightarrow> \<not> timer_truthy (refreshTimeoutId c) \<Longrightarrow> timers c = []"
    by (cases "timers c") (auto simp: timers_inv_def)
  have 1: "user (store (logout srv c)) = None" by (simp add: u)
  have 2: "accessToken (store (logout srv c)) = None" by (simp add: u)
  have 3: "expiresAt (store (logout srv c)) = None" by (simp add: u)
  have 4: "\<not> isAuthenticated (store (logout srv c))" by (simp add: u)
  have 5: "currentToken (api (logout srv c)) = None" by (simp add: u clearAuthToken_def)
  have 6: "default_authorization (api (logout srv c)) = None"
    by (simp add: u clearAuthToken_def)
  have 7: "\<forall>i. refreshTimeoutId c = Some i \<and> i \<noteq> 0
          \<longrightarrow> i \<notin> set (timers (logout srv c)) \<and> refreshTimeoutId (logout srv c) = None"
    by (simp add: u)
  have 8: "timers_inv c \<longrightarrow> timers (logout srv c) = []"
    using t n by (simp add: u)
  from 1 2 3 4 5 6 7 8 show ?thesis by blast
qed

text \<open>
  An instance: the network gives no reply, so the POST rejects; one refresh timeout,
  number 7, is pending.
\<close>

theorem logout_clears_state_witness:
  "refreshTimeoutId
      \<lparr>api = \<lparr>currentToken = Some ''t0'', default_authorization = Some ''Bearer t0'',
              sent = []\<rparr>,
       store = \<lparr>user = None, accessToken = Some ''t0'', expiresAt = Some 1000,
                isAuthenticated = True, isLoading = False\<rparr>,
       refreshTimeoutId = Some 7, isInitializing = False, timers = [7], next_timer = 8\<rparr>
     = Some 7
   \<and> (7::nat) \<noteq> 0
   \<and> timers_inv
      \<lparr>api = \<lparr>currentToken = Some ''t0'', default_authorization = Some ''Bearer t0'',
              sent = []\<rparr>,
       store = \<lparr>user = None, accessToken = Some ''t0'', expiresAt = Some 1000,
                isAuthenticated = True, isLoading = False\<rparr>,
       refreshTimeoutId = Some 7, isInitializing = False, timers = [7], next_timer = 8\<rparr>
   \<and> snd (api_request (\<lambda>n r. NoReply)
        \<lparr>currentToken = Some ''t0'', default_authorization = Some ''Bearer t0'', sent = []\<rparr>
        logout_request)
      = Inl \<lparr>config = Some (logout_request\<lparr>authorization := Some ''Bearer t0''\<rparr>),
             err_response = None\<rparr>
   \<and> timers (logout (\<lambda>n r. NoReply)
      \<lparr>api = \<lparr>currentToken = Some ''t0'', default_authorization = Some ''Bearer t0'',
              sent = []\<rparr>,
       store = \<lparr>user = None, accessToken = Some ''t0'', expiresAt = Some 1000,
                isAuthenticated = True, isLoading = False\<rparr>,
       refreshTimeoutId = Some 7, isInitializing = False, timers = [7], next_timer = 8\<rparr>)
     = []
   \<and> refreshTimeoutId (logout (\<lambda>n r. NoReply)
      \<lparr>api = \<lparr>currentToken = Some ''t0'', default_authorization = Some ''Bearer t0'',
              sent = []\<rparr>,
       store = \<lparr>user = None, accessToken = Some ''t0'', expiresAt = Some 1000,
                isAuthenticated = True, isLoading = False\<rparr>,
       refreshTimeoutId = Some 7, isInitializing = False, timers = [7], next_timer = 8\<rparr>)
     = None"
proof -
  let ?srv = "\<lambda>(n::nat) (r::request_config). NoReply"
  let ?c = "\<lparr>api = \<lparr>currentToken = Some ''t0'', default_authorization = Some ''Bearer t0'',
              sent = []\<rparr>,
       store = \<lparr>user = None, accessToken = Some ''t0'', expiresAt = Some 1000,
                isAuthenticated = True, isLoading = False\<rparr>,
       refreshTimeoutId = Some 7, isInitializing = False, timers = [7], next_timer = 8\<rparr>"
  have i: "timers_inv ?c" by (simp add: timers_inv_def)
  have f: "snd (api_request ?srv (api ?c) logout_request)
      = Inl \<lparr>config = Some (logout_request\<lparr>authorization := Some ''Bearer t0''\<rparr>),
             err_response = None\<rparr>"
    by (simp add: api_request.simps on_rejected.simps dispatch_def should_refresh_def Let_def
        url_includes_def logout_request_def merge_defaults_def request_interceptor_def)
  from logout_clears_state [where srv = ?srv and c = ?c] i f
  show ?thesis by simp
qed


section \<open>Properties of the ingestion and search core\<close>

subsection \<open>Upserts\<close>

lemma set_upsert: "set (upsert key x xs) = insert x {y \<in> set xs. key y \<noteq> key x}"
proof (cases "key x \<in> set (map key xs)")
  case True
  then obtain y where y: "y \<in> set xs" "key y = key x" by auto
  have "set (map (\<lambda>y. if key y = key x then x else y) xs)
          = insert x {y \<in> set xs. key y \<noteq> key x}"
    using y by (auto simp: image_iff)
  with True show ?thesis by (simp add: upsert_def)
next
  case False
  then have "{y \<in> set xs. key y \<noteq> key x} = set xs" by (force simp: image_iff)
  with False show ?thesis by (simp add: upsert_def)
qed

lemma map_key_upsert:
  "map key (upsert key x xs)
     = (if key x \<in> set (map key xs) then map key xs else map key xs @ [key x])"
proof -
  have "map key (map (\<lambda>y. if key y = key x then x else y) xs) = map key xs"
    by (induction xs) auto
  then show ?thesis by (simp add: upsert_def)
qed

lemma keys_upsert: "key ` set (upsert key x xs) = insert (key x) (key ` set xs)"
proof -
  have "set (map key (upsert key x xs)) = insert (key x) (set (map key xs))"
    unfolding map_key_upsert by auto
  then show ?thesis by simp
qed

lemma distinct_upsert:
  "distinct (map key xs) \<Longrightarrow> distinct (map key (upsert key x xs))"
  unfolding map_key_upsert by simp

lemma filter_upsert_other:
  assumes "\<not> P x" "\<And>y. key y = key x \<Longrightarrow> \<not> P y"
  shows "filter P (upsert key x xs) = filter P xs"
proof -
  have "filter P (map (\<lambda>y. if key y = key x then x else y) xs) = filter P xs"
    using assms by (induction xs) auto
  with assms show ?thesis by (simp add: upsert_def)
qed

subsection \<open>The rows of a document\<close>

lemma set_doc_chunks [simp]: "set (doc_chunks d s) = {c \<in> set (chunks s). chunk_doc c = d}"
  by (auto simp: doc_chunks_def)

lemma set_doc_entries [simp]:
  "set (doc_entries d s) = {en \<in> set (vindex s). fst (entry_id en) = d}"
  by (auto simp: doc_entries_def)

lemma set_doc_pages [simp]: "set (doc_pages d s) = {p \<in> set (pages s). page_doc p = d}"
  by (auto simp: doc_pages_def)

lemma doc_chunks_empty [simp]:
  "doc_chunks d s = [] \<longleftrightarrow> (\<forall>c \<in> set (chunks s). chunk_doc c \<noteq> d)"
  by (auto simp: doc_chunks_def filter_empty_conv)

lemma doc_entries_empty [simp]:
  "doc_entries d s = [] \<longleftrightarrow> (\<forall>en \<in> set (vindex s). fst (entry_id en) \<noteq> d)"
  by (auto simp: doc_entries_def filter_empty_conv)

lemma doc_pages_empty [simp]:
  "doc_pages d s = [] \<longleftrightarrow> (\<forall>p \<in> set (pages s). page_doc p \<noteq> d)"
  by (auto simp: doc_pages_def filter_empty_conv)



lemma chunk_key_vector_id [simp]: "chunk_key (c\<lparr>vector_id := x\<rparr>) = chunk_key c"
  by (simp add: chunk_key_def)

lemma fst_chunk_key [simp]: "fst (chunk_key c) = chunk_doc c"
  by (simp add: chunk_key_def)

lemma fst_page_key [simp]: "fst (page_key p) = page_doc p"
  by (simp add: page_key_def)

subsection \<open>One step\<close>

lemma perform_fields [simp]:
  "documents (perform st s) = documents s"
  "issued (perform st s) = issued s"
  "history (perform st s) = history s"
  by (cases st; simp)+

lemma set_chunks_put_chunk:
  "set (chunks (perform (Put_chunk c) s))
     = insert c {y \<in> set (chunks s). chunk_key y \<noteq> chunk_key c}"
  by (simp add: set_upsert)

lemma set_vindex_put_vector:
  "set (vindex (perform (Put_vector en) s))
     = insert en {y \<in> set (vindex s). entry_id y \<noteq> entry_id en}"
  by (simp add: set_upsert)

lemma set_chunks_put_vector_id:
  "set (chunks (perform (Put_vector_id k) s))
     = (\<lambda>c. if chunk_key c = k then c\<lparr>vector_id := Some k\<rparr> else c) ` set (chunks s)"
  by simp

lemma chunk_key_set_id [simp]:
  "chunk_key \<circ> (\<lambda>c. if chunk_key c = k then c\<lparr>vector_id := Some k\<rparr> else c) = chunk_key"
  by (rule ext) simp

lemma map_chunk_key_put_vector_id [simp]:
  "map chunk_key (chunks (perform (Put_vector_id k) s)) = map chunk_key (chunks s)"
  by simp

lemma chunk_keys_perform:
  "chunk_key ` set (chunks s) \<subseteq> chunk_key ` set (chunks (perform st s))"
proof (cases st)
  case (Put_chunk c)
  then show ?thesis by (auto simp: keys_upsert)
next
  case (Put_vector_id k)
  have "set (map chunk_key (chunks (perform (Put_vector_id k) s)))
          = set (map chunk_key (chunks s))"
    by (simp only: map_chunk_key_put_vector_id)
  then have "chunk_key ` set (chunks (perform (Put_vector_id k) s)) = chunk_key ` set (chunks s)"
    by (simp only: set_map)
  with Put_vector_id show ?thesis by (simp only: subset_refl)
qed simp_all

lemma entry_ids_perform:
  "entry_id ` set (vindex s) \<subseteq> entry_id ` set (vindex (perform st s))"
  by (cases st) (auto simp: keys_upsert)

lemma page_keys_perform:
  "page_key ` set (pages s) \<subseteq> page_key ` set (pages (perform st s))"
  by (cases st) (auto simp: keys_upsert)

lemma keys_distinct_perform: "keys_distinct s \<Longrightarrow> keys_distinct (perform st s)"
proof (cases st)
  case (Put_vector_id k)
  assume "keys_distinct s"
  then show ?thesis
    unfolding keys_distinct_def Put_vector_id map_chunk_key_put_vector_id by simp
qed (simp_all add: keys_distinct_def distinct_upsert)

lemma ids_own_perform:
  assumes "ids_own d s" "step_of d u st"
  shows "ids_own d (perform st s)"
proof (cases st)
  case (Put_chunk c)
  with assms show ?thesis
    unfolding ids_own_def Put_chunk set_chunks_put_chunk by auto
next
  case (Put_vector_id k)
  with assms show ?thesis
    unfolding ids_own_def Put_vector_id set_chunks_put_vector_id by auto
qed (use assms in \<open>simp_all add: ids_own_def\<close>)

lemma vectors_have_rows_perform:
  assumes "vectors_have_rows d s"
    and "\<And>en. st = Put_vector en \<Longrightarrow> entry_id en \<in> chunk_key ` set (chunks s)"
  shows "vectors_have_rows d (perform st s)"
proof -
  have k: "chunk_key ` set (chunks s) \<subseteq> chunk_key ` set (chunks (perform st s))"
    by (rule chunk_keys_perform)
  show ?thesis
  proof (cases st)
    case (Put_vector en)
    with assms show ?thesis
      unfolding vectors_have_rows_def Put_vector set_vindex_put_vector by auto
  next
    case (Put_chunk c)
    with assms(1) k show ?thesis unfolding vectors_have_rows_def by auto
  next
    case (Put_vector_id x)
    with assms(1) k show ?thesis unfolding vectors_have_rows_def by auto
  qed (use assms in \<open>simp_all add: vectors_have_rows_def\<close>)
qed

lemma ids_have_vectors_perform:
  assumes "ids_have_vectors d s" "step_of d u st"
    and "\<And>k. st = Put_vector_id k \<Longrightarrow> k \<in> entry_id ` set (vindex s)"
  shows "ids_have_vectors d (perform st s)"
proof (cases st)
  case (Put_chunk c)
  with assms show ?thesis
    unfolding ids_have_vectors_def Put_chunk set_chunks_put_chunk by auto
next
  case (Put_vector en)
  have "entry_id ` set (vindex s) \<subseteq> entry_id ` set (vindex (perform st s))"
    by (rule entry_ids_perform)
  with assms(1) Put_vector show ?thesis unfolding ids_have_vectors_def by auto
next
  case (Put_vector_id k)
  show ?thesis
    unfolding ids_have_vectors_def Put_vector_id
  proof (intro ballI impI)
    fix c assume "c \<in> set (chunks (perform (Put_vector_id k) s))"
      and cd: "chunk_doc c = d" and nn: "vector_id c \<noteq> None"
    then obtain r where r: "r \<in> set (chunks s)"
      "c = (if chunk_key r = k then r\<lparr>vector_id := Some k\<rparr> else r)"
      unfolding set_chunks_put_vector_id by blast
    show "chunk_key c \<in> entry_id ` set (vindex (perform (Put_vector_id k) s))"
    proof (cases "chunk_key r = k")
      case True
      with r assms(3) [OF Put_vector_id] show ?thesis by simp
    next
      case False
      with r cd nn assms(1) show ?thesis by (simp add: ids_have_vectors_def)
    qed
  qed
qed (use assms in \<open>simp_all add: ids_have_vectors_def\<close>)

lemma vectors_of_owner_perform:
  assumes "vectors_of_owner d u s" "step_of d u st"
  shows "vectors_of_owner d u (perform st s)"
proof (cases st)
  case (Put_vector en)
  with assms show ?thesis
    unfolding vectors_of_owner_def Put_vector set_vindex_put_vector by auto
qed (use assms in \<open>simp_all add: vectors_of_owner_def\<close>)

lemma in_progress_perform:
  assumes "in_progress d u s" "step_of d u st" "in_order s [st]"
  shows "in_progress d u (perform st s)"
proof -
  from assms(3) have 1: "\<And>en. st = Put_vector en \<Longrightarrow> entry_id en \<in> chunk_key ` set (chunks s)"
    and 2: "\<And>k. st = Put_vector_id k \<Longrightarrow> k \<in> entry_id ` set (vindex s)"
    by auto
  from assms(1,2) 1 2 show ?thesis
    unfolding in_progress_def
    by (intro conjI ids_own_perform vectors_have_rows_perform ids_have_vectors_perform
        vectors_of_owner_perform) blast+
qed

lemma others_same_refl [simp]: "others_same d s s"
  by (simp add: others_same_def)

lemma others_same_trans: "others_same d s s1 \<Longrightarrow> others_same d s1 s2 \<Longrightarrow> others_same d s s2"
  by (simp add: others_same_def)

lemma others_same_actions [simp]: "others_same d s (s'\<lparr>actions := x\<rparr>) = others_same d s s'"
  by (simp add: others_same_def doc_chunks_def doc_entries_def doc_pages_def)

lemma others_same_actions_left [simp]:
  "others_same d (s\<lparr>actions := x\<rparr>) s' = others_same d s s'"
  by (simp add: others_same_def doc_chunks_def doc_entries_def doc_pages_def)

lemma filter_set_vector_id:
  "fst k \<noteq> d'
   \<Longrightarrow> filter (\<lambda>c. chunk_doc c = d')
         (map (\<lambda>c. if chunk_key c = k then c\<lparr>vector_id := Some k\<rparr> else c) xs)
       = filter (\<lambda>c. chunk_doc c = d') xs"
  by (induction xs) auto

lemma others_same_perform:
  assumes "step_of d u st"
  shows "others_same d s (perform st s)"
proof (cases st)
  case (Invoke a)
  then show ?thesis by simp
next
  case (Put_page p)
  with assms have "\<And>d'. d' \<noteq> d \<Longrightarrow> doc_pages d' (perform st s) = doc_pages d' s"
    unfolding doc_pages_def by (simp, intro filter_upsert_other) (auto simp: page_key_def)
  with Put_page show ?thesis by (simp add: others_same_def doc_chunks_def doc_entries_def)
next
  case (Put_chunk c)
  with assms have "\<And>d'. d' \<noteq> d \<Longrightarrow> doc_chunks d' (perform st s) = doc_chunks d' s"
    unfolding doc_chunks_def by (simp, intro filter_upsert_other) (auto simp: chunk_key_def)
  with Put_chunk show ?thesis by (simp add: others_same_def doc_pages_def doc_entries_def)
next
  case (Put_vector en)
  with assms have "\<And>d'. d' \<noteq> d \<Longrightarrow> doc_entries d' (perform st s) = doc_entries d' s"
    unfolding doc_entries_def by (simp, intro filter_upsert_other) auto
  with Put_vector show ?thesis by (simp add: others_same_def doc_pages_def doc_chunks_def)
next
  case (Put_vector_id k)
  with assms have "\<And>d'. d' \<noteq> d \<Longrightarrow> doc_chunks d' (perform st s) = doc_chunks d' s"
    unfolding doc_chunks_def by (simp add: filter_set_vector_id)
  with Put_vector_id show ?thesis by (simp add: others_same_def doc_pages_def doc_entries_def)
qed

subsection \<open>Sequences of steps\<close>

lemma fold_perform_fields [simp]:
  "documents (fold perform sts s) = documents s"
  "issued (fold perform sts s) = issued s"
  "history (fold perform sts s) = history s"
  by (induction sts arbitrary: s; simp)+

lemma in_order_Cons:
  "in_order s (st # sts) \<longleftrightarrow> in_order s [st] \<and> in_order (perform st s) sts"
  by (cases st) simp_all

lemma in_order_append:
  "in_order s (xs @ ys) \<longleftrightarrow> in_order s xs \<and> in_order (fold perform xs s) ys"
proof (induction xs arbitrary: s)
  case Nil
  show ?case by simp
next
  case (Cons x xs)
  have "in_order s ((x # xs) @ ys) \<longleftrightarrow> in_order s [x] \<and> in_order (perform x s) (xs @ ys)"
    using in_order_Cons [of s x "xs @ ys"] by simp
  also have "\<dots> \<longleftrightarrow> in_order s [x] \<and> in_order (perform x s) xs
                       \<and> in_order (fold perform xs (perform x s)) ys"
    by (simp add: Cons.IH)
  also have "\<dots> \<longleftrightarrow> in_order s (x # xs) \<and> in_order (fold perform (x # xs) s) ys"
    using in_order_Cons [of s x xs] by simp
  finally show ?case .
qed

lemma in_order_take: "in_order s sts \<Longrightarrow> in_order s (take n sts)"
  using in_order_append [of s "take n sts" "drop n sts"] by simp

lemma steps_effect:
  assumes "list_all (step_of d u) sts" "in_order s sts" "in_progress d u s"
  shows "in_progress d u (fold perform sts s) \<and> others_same d s (fold perform sts s)"
  using assms
proof (induction sts arbitrary: s)
  case Nil
  then show ?case by simp
next
  case (Cons st sts)
  from Cons.prems(2) have o: "in_order s [st]" "in_order (perform st s) sts"
    using in_order_Cons by blast+
  from Cons.prems(1) have so: "step_of d u st" "list_all (step_of d u) sts" by simp_all
  from in_progress_perform [OF Cons.prems(3) so(1) o(1)]
  have ip: "in_progress d u (perform st s)" .
  from Cons.IH [OF so(2) o(2) ip] others_same_perform [OF so(1), of s]
  show ?case by (auto intro: others_same_trans)
qed

lemma keys_distinct_fold: "keys_distinct s \<Longrightarrow> keys_distinct (fold perform sts s)"
  by (induction sts arbitrary: s) (simp_all add: keys_distinct_perform)

lemma chunk_keys_fold:
  "chunk_key ` set (chunks s) \<subseteq> chunk_key ` set (chunks (fold perform sts s))"
proof (induction sts arbitrary: s)
  case Nil
  show ?case by simp
next
  case (Cons st sts)
  from chunk_keys_perform [of s st] Cons.IH [of "perform st s"] show ?case by simp
qed

lemma page_keys_fold:
  "page_key ` set (pages s) \<subseteq> page_key ` set (pages (fold perform sts s))"
proof (induction sts arbitrary: s)
  case Nil
  show ?case by simp
next
  case (Cons st sts)
  from page_keys_perform [of s st] Cons.IH [of "perform st s"] show ?case by simp
qed

lemma put_chunk_key_fold:
  "Put_chunk c \<in> set sts \<Longrightarrow> chunk_key c \<in> chunk_key ` set (chunks (fold perform sts s))"
proof (induction sts arbitrary: s)
  case Nil
  then show ?case by simp
next
  case (Cons st sts)
  show ?case
  proof (cases "st = Put_chunk c")
    case True
    have "chunk_key c \<in> chunk_key ` set (chunks (perform (Put_chunk c) s))"
      by (simp add: keys_upsert)
    with chunk_keys_fold [of "perform (Put_chunk c) s" sts] True show ?thesis by auto
  next
    case False
    with Cons.prems have "Put_chunk c \<in> set sts" by simp
    from Cons.IH [OF this] show ?thesis by simp
  qed
qed

lemma put_page_key_fold:
  "Put_page p \<in> set sts \<Longrightarrow> page_key p \<in> page_key ` set (pages (fold perform sts s))"
proof (induction sts arbitrary: s)
  case Nil
  then show ?case by simp
next
  case (Cons st sts)
  show ?case
  proof (cases "st = Put_page p")
    case True
    have "page_key p \<in> page_key ` set (pages (perform (Put_page p) s))"
      by (simp add: keys_upsert)
    with page_keys_fold [of "perform (Put_page p) s" sts] True show ?thesis by auto
  next
    case False
    with Cons.prems have "Put_page p \<in> set sts" by simp
    from Cons.IH [OF this] show ?thesis by simp
  qed
qed

text \<open>Calls and row writes are in order anywhere.\<close>

lemma in_order_rows: "list_all row_step sts \<Longrightarrow> in_order s sts"
proof (induction sts arbitrary: s)
  case Nil
  show ?case by simp
next
  case (Cons st sts)
  then show ?case by (cases st) simp_all
qed

lemma in_order_index_steps:
  "chunk_key ` set rows \<subseteq> chunk_key ` set (chunks s) \<Longrightarrow> in_order s (index_steps e u rows)"
proof (induction rows arbitrary: s)
  case Nil
  show ?case by simp
next
  case (Cons c rows)
  show ?case
  proof (cases "embed e (content c)")
    case None
    then show ?thesis by simp
  next
    case (Some v)
    show ?thesis
    proof (cases "upsert_ack e (chunk_key c)")
      case False
      with Some show ?thesis by simp
    next
      case True
      let ?en = "\<lparr>entry_id = chunk_key c, entry_vector = v, namespace = u\<rparr>"
      let ?s3 = "perform (Put_vector_id (chunk_key c))
                  (perform (Put_vector ?en) (perform (Invoke Call_embed) s))"
      have "chunk_key ` set (chunks s) \<subseteq> chunk_key ` set (chunks ?s3)"
        using chunk_keys_fold [of s "[Invoke Call_embed, Put_vector ?en,
          Put_vector_id (chunk_key c)]"] by (simp del: perform.simps)
      moreover from Cons.prems have "chunk_key ` set rows \<subseteq> chunk_key ` set (chunks s)"
        by simp
      ultimately have "chunk_key ` set rows \<subseteq> chunk_key ` set (chunks ?s3)"
        by (rule order_trans [rotated])
      then have 3: "in_order ?s3 (index_steps e u rows)" by (rule Cons.IH)
      from Cons.prems
      have 1: "entry_id ?en \<in> chunk_key ` set (chunks (perform (Invoke Call_embed) s))"
        by simp
      have 2: "chunk_key c \<in> entry_id ` set (vindex (perform (Put_vector ?en)
                  (perform (Invoke Call_embed) s)))"
        by (simp add: keys_upsert)
      from 1 2 3 Some True show ?thesis by (simp del: perform.simps)
    qed
  qed
qed

lemma chunk_rows_doc: "c \<in> set (chunk_rows cfg d ps) \<Longrightarrow> chunk_doc c = d \<and> vector_id c = None"
  by (auto simp: chunk_rows_def)

lemma page_doc_annotate [simp]: "page_doc (annotate e p) = page_doc p"
  by (simp add: annotate_def split: option.splits prod.splits)

lemma page_key_annotate [simp]: "page_key (annotate e p) = page_key p"
  by (simp add: annotate_def page_key_def split: option.splits prod.splits)

lemma page_doc_page_row [simp]: "page_doc (page_row d pp) = d"
  by (simp add: page_row_def)

lemma step_of_index_steps:
  "\<forall>c \<in> set rows. chunk_doc c = d \<Longrightarrow> list_all (step_of d u) (index_steps e u rows)"
  by (induction rows) (auto split: option.splits)

lemma step_of_stage_steps: "list_all (step_of d u) (stage_steps e cfg d u calls ps)"
proof -
  have "list_all (step_of d u) (concat (map (\<lambda>pp. annotate_steps e (page_row d pp)) ps))"
    by (auto simp: list_all_iff annotate_steps_def split: option.splits)
  moreover have "list_all (step_of d u) (index_steps e u (chunk_rows cfg d ps))"
    by (rule step_of_index_steps) (simp add: chunk_rows_doc)
  ultimately show ?thesis
    by (auto simp: stage_steps_def list_all_iff chunk_rows_doc)
qed

lemma in_order_stage_steps: "in_order s (stage_steps e cfg d u calls ps)"
proof -
  let ?rows = "map Invoke calls @ map (\<lambda>pp. Put_page (page_row d pp)) ps
     @ concat (map (\<lambda>pp. annotate_steps e (page_row d pp)) ps)
     @ map Put_chunk (chunk_rows cfg d ps)"
  have 1: "in_order s ?rows"
    by (rule in_order_rows) (auto simp: list_all_iff annotate_steps_def split: option.splits)
  have "chunk_key ` set (chunk_rows cfg d ps) \<subseteq> chunk_key ` set (chunks (fold perform ?rows s))"
  proof
    fix k assume "k \<in> chunk_key ` set (chunk_rows cfg d ps)"
    then obtain c where c: "c \<in> set (chunk_rows cfg d ps)" "k = chunk_key c" by blast
    then have "Put_chunk c \<in> set ?rows" by simp
    from put_chunk_key_fold [OF this] c
    show "k \<in> chunk_key ` set (chunks (fold perform ?rows s))" by simp
  qed
  then have "in_order (fold perform ?rows s) (index_steps e u (chunk_rows cfg d ps))"
    by (rule in_order_index_steps)
  with 1 have "in_order s (?rows @ index_steps e u (chunk_rows cfg d ps))"
    by (simp only: in_order_append)
  then show ?thesis by (simp add: stage_steps_def)
qed

subsection \<open>The invariants through the views of a document\<close>

lemma key_in_doc_chunks:
  "fst k = d \<Longrightarrow> k \<in> chunk_key ` set (doc_chunks d s) \<longleftrightarrow> k \<in> chunk_key ` set (chunks s)"
proof
  assume d: "fst k = d" and "k \<in> chunk_key ` set (chunks s)"
  then obtain c where c: "c \<in> set (chunks s)" "k = chunk_key c" by blast
  with d have "chunk_doc c = d" by simp
  with c show "k \<in> chunk_key ` set (doc_chunks d s)" by simp
qed auto

lemma id_in_doc_entries:
  "fst k = d \<Longrightarrow> k \<in> entry_id ` set (doc_entries d s) \<longleftrightarrow> k \<in> entry_id ` set (vindex s)"
proof
  assume d: "fst k = d" and "k \<in> entry_id ` set (vindex s)"
  then obtain en where en: "en \<in> set (vindex s)" "k = entry_id en" by blast
  with d have "fst (entry_id en) = d" by simp
  with en show "k \<in> entry_id ` set (doc_entries d s)" by simp
qed auto

lemma ids_own_view:
  "ids_own d s \<longleftrightarrow>
     (\<forall>c \<in> set (doc_chunks d s). \<forall>v. vector_id c = Some v \<longrightarrow> v = chunk_key c)"
  unfolding ids_own_def set_doc_chunks by blast

lemma vectors_have_rows_view:
  "vectors_have_rows d s \<longleftrightarrow>
     (\<forall>en \<in> set (doc_entries d s). entry_id en \<in> chunk_key ` set (doc_chunks d s))"
proof -
  have "entry_id en \<in> chunk_key ` set (doc_chunks d s)
          \<longleftrightarrow> entry_id en \<in> chunk_key ` set (chunks s)"
    if "fst (entry_id en) = d" for en
    using that by (rule key_in_doc_chunks)
  then show ?thesis
    unfolding vectors_have_rows_def set_doc_entries by blast
qed

lemma ids_have_vectors_view:
  "ids_have_vectors d s \<longleftrightarrow>
     (\<forall>c \<in> set (doc_chunks d s). vector_id c \<noteq> None
         \<longrightarrow> chunk_key c \<in> entry_id ` set (doc_entries d s))"
proof -
  have "chunk_key c \<in> entry_id ` set (doc_entries d s)
          \<longleftrightarrow> chunk_key c \<in> entry_id ` set (vindex s)"
    if "chunk_doc c = d" for c
    by (rule id_in_doc_entries) (simp add: that)
  then show ?thesis
    unfolding ids_have_vectors_def set_doc_chunks by blast
qed

lemma vectors_of_owner_view:
  "vectors_of_owner d u s \<longleftrightarrow> (\<forall>en \<in> set (doc_entries d s). namespace en = u)"
  unfolding vectors_of_owner_def set_doc_entries by blast

lemma doc_ok_views:
  assumes "documents s' d = documents s d" "doc_chunks d s' = doc_chunks d s"
    "doc_entries d s' = doc_entries d s" "doc_pages d s' = doc_pages d s"
  shows "doc_ok s' a d = doc_ok s a d"
  unfolding doc_ok_def ids_own_view vectors_have_rows_view ids_have_vectors_view
    vectors_of_owner_view assms ..

lemma doc_ok_others:
  "doc_ok s a d' \<Longrightarrow> others_same d s s' \<Longrightarrow> d' \<noteq> d \<Longrightarrow> doc_ok s' a d'"
  using doc_ok_views [of s' d' s a] by (simp add: others_same_def)

lemma doc_ok_mono: "doc_ok s a d \<Longrightarrow> set a' \<subseteq> set a \<Longrightarrow> doc_ok s a' d"
  unfolding doc_ok_def by (auto split: option.splits)

lemma doc_ok_in_progress:
  "doc_ok s a d \<Longrightarrow> documents s d = Some doc \<Longrightarrow> doc_status doc = Processing
   \<Longrightarrow> in_progress d (owner doc) s"
  by (simp add: doc_ok_def in_progress_def)

lemma in_progress_doc_ok:
  "in_progress d (owner doc) s \<Longrightarrow> documents s d = Some doc \<Longrightarrow> doc_status doc = Processing
   \<Longrightarrow> doc_ok s a d"
  by (simp add: doc_ok_def in_progress_def)

lemma in_progress_pending:
  "doc_ok s a d \<Longrightarrow> documents s d = Some doc \<Longrightarrow> doc_status doc = Pending
   \<Longrightarrow> in_progress d u s"
proof -
  assume ok: "doc_ok s a d" and d: "documents s d = Some doc" "doc_status doc = Pending"
  then have ch: "set (doc_chunks d s) = {}" and vr: "vectors_have_rows d s"
    by (simp_all add: doc_ok_def del: set_doc_chunks doc_chunks_empty)
  from vr ch have en: "set (doc_entries d s) = {}"
    unfolding vectors_have_rows_view by (simp del: set_doc_chunks set_doc_entries)
  show ?thesis
    unfolding in_progress_def vectors_have_rows_view ids_have_vectors_view
      vectors_of_owner_view ids_own_view ch en by simp
qed

lemma doc_ok_actions [simp]: "doc_ok (s\<lparr>actions := x\<rparr>) a d = doc_ok s a d"
  by (rule doc_ok_views) (simp_all add: doc_chunks_def doc_entries_def doc_pages_def)

lemma doc_ok_history [simp]: "doc_ok (s\<lparr>history := x\<rparr>) a d = doc_ok s a d"
  by (rule doc_ok_views) (simp_all add: doc_chunks_def doc_entries_def doc_pages_def)

subsection \<open>Stage 5\<close>

lemma parsed_pages: "parsed r = Some ps \<Longrightarrow> ps \<noteq> []"
  by (auto simp: parsed_def split: option.splits if_splits)

lemma parse_stage_pages: "parse_stage e doc = (calls, Some (cap, ps)) \<Longrightarrow> ps \<noteq> []"
  by (auto simp: parse_stage_def dest: parsed_pages split: option.splits)

lemma fail_document_entries:
  assumes "vectors_have_rows d s"
  shows "doc_entries d (fail_document d msg s) = []"
proof -
  have "entry_id en \<in> chunk_key ` set (doc_chunks d s)"
    if "en \<in> set (vindex s)" "fst (entry_id en) = d" for en
    using assms that unfolding vectors_have_rows_view by simp
  then show ?thesis
    by (auto simp: fail_document_def Let_def simp del: set_doc_chunks)
qed

lemma fail_document_others: "others_same d s (fail_document d msg s)"
proof -
  have "doc_entries d' (fail_document d msg s) = doc_entries d' s" if "d' \<noteq> d" for d'
  proof -
    have "entry_id en \<notin> chunk_key ` set (doc_chunks d s)"
      if "fst (entry_id en) = d'" for en
      using that \<open>d' \<noteq> d\<close> by auto
    then have "filter (\<lambda>en. fst (entry_id en) = d' \<and>
                   entry_id en \<notin> chunk_key ` set (doc_chunks d s)) (vindex s)
                 = filter (\<lambda>en. fst (entry_id en) = d') (vindex s)"
      by (intro filter_cong) auto
    then show ?thesis
      unfolding doc_entries_def fail_document_def Let_def
      by (simp add: conj_commute del: set_doc_chunks)
  qed
  then show ?thesis
    by (simp add: others_same_def, simp add: fail_document_def Let_def doc_chunks_def
        doc_pages_def split: option.splits)
qed

lemma fail_document_doc_ok:
  assumes "ids_own d s" "vectors_have_rows d s" "documents s d = Some doc" "d \<notin> set a"
  shows "doc_ok (fail_document d msg s) a d"
proof -
  let ?s = "fail_document d msg s"
  have ch: "chunks ?s = chunks s" and vi: "set (vindex ?s) \<subseteq> set (vindex s)"
    and dc: "documents ?s d = Some (doc\<lparr>doc_status := Failed, processing_error := Some msg\<rparr>)"
    using assms(3) by (auto simp: fail_document_def Let_def)
  from assms(1) ch have 1: "ids_own d ?s" by (simp add: ids_own_def)
  from assms(2) ch vi have 2: "vectors_have_rows d ?s" by (auto simp: vectors_have_rows_def)
  from fail_document_entries [OF assms(2)] have 3: "doc_entries d ?s = []" .
  then have 4: "vectors_of_owner d u ?s" for u
    unfolding vectors_of_owner_view by (simp del: set_doc_entries doc_entries_empty)
  from 1 2 3 4 dc assms(4) show ?thesis
    unfolding doc_ok_def by (simp del: doc_entries_empty)
qed

lemma keys_distinct_fail_document:
  "keys_distinct s \<Longrightarrow> keys_distinct (fail_document d msg s)"
  by (simp add: keys_distinct_def fail_document_def Let_def distinct_map_filter)

lemma finalize_doc_ok:
  assumes "in_progress d (owner doc) s" "documents s d = Some doc" "d \<notin> set a"
    "0 < n" "doc_pages d s \<noteq> []"
  shows "doc_ok (finalize cap n now d s) a d"
proof (cases "list_all (\<lambda>c. chunk_doc c \<noteq> d \<or> vector_id c \<noteq> None) (chunks s)")
  case False
  with assms have "doc_ok (fail_document d ''chunks without a vector'' s) a d"
    by (intro fail_document_doc_ok) (simp_all add: in_progress_def)
  with False show ?thesis by (simp add: finalize_def)
next
  case True
  let ?doc = "doc\<lparr>doc_status := Completed, total_pages := Some n,
                                   processed_at := Some now, parse_capability := Some cap\<rparr>"
  let ?s = "s\<lparr>documents := (documents s)(d \<mapsto> ?doc),
             actions := actions s @ [Set_status d Completed]\<rparr>"
  from True assms(2) have f: "finalize cap n now d s = ?s" by (simp add: finalize_def)
  from True have all: "\<forall>c \<in> set (doc_chunks d s). vector_id c \<noteq> None"
    by (auto simp: list_all_iff)
  have "doc_ok ?s a d = doc_ok (s\<lparr>documents := (documents s)(d \<mapsto> ?doc)\<rparr>) a d"
    by (rule doc_ok_views) (simp_all add: doc_chunks_def doc_entries_def doc_pages_def)
  moreover have "doc_ok (s\<lparr>documents := (documents s)(d \<mapsto> ?doc)\<rparr>) a d"
    using assms all unfolding doc_ok_def in_progress_def
    by (simp add: ids_own_def vectors_have_rows_def ids_have_vectors_def vectors_of_owner_def
        doc_chunks_def doc_pages_def del: doc_pages_empty)
  ultimately show ?thesis using f by simp
qed

lemma finalize_others: "others_same d s (finalize cap n now d s)"
proof (cases "list_all (\<lambda>c. chunk_doc c \<noteq> d \<or> vector_id c \<noteq> None) (chunks s)")
  case True
  then show ?thesis
    by (simp add: finalize_def others_same_def doc_chunks_def doc_entries_def doc_pages_def
        split: option.splits)
next
  case False
  then show ?thesis by (simp add: finalize_def fail_document_others)
qed

lemma keys_distinct_finalize: "keys_distinct s \<Longrightarrow> keys_distinct (finalize cap n now d s)"
  by (simp add: finalize_def keys_distinct_fail_document) (simp add: keys_distinct_def)

subsection \<open>An attempt\<close>

lemma run_stages_effect:
  assumes ok: "doc_ok s a d" and doc: "documents s d = Some doc"
    and st: "doc_status doc = Processing" and na: "d \<notin> set a'"
  shows "doc_ok (run_stages e cfg now d s) a' d \<and> others_same d s (run_stages e cfg now d s)"
proof -
  let ?u = "owner doc"
  from ok doc st have ip: "in_progress d ?u s" by (rule doc_ok_in_progress)
  obtain calls res where ps: "parse_stage e doc = (calls, res)" by (cases "parse_stage e doc")
  show ?thesis
  proof (cases res)
    case None
    let ?s1 = "fold perform (map Invoke calls) s"
    have "list_all (step_of d ?u) (map Invoke calls)" "in_order s (map Invoke calls)"
      by (simp_all add: list_all_iff in_order_rows)
    from steps_effect [OF this ip]
    have 1: "in_progress d ?u ?s1" "others_same d s ?s1" by simp_all
    from 1(1) doc na
    have "doc_ok (fail_document d ''the document could not be parsed'' ?s1) a' d"
      by (intro fail_document_doc_ok) (simp_all add: in_progress_def)
    moreover from 1(2) fail_document_others
    have "others_same d s (fail_document d ''the document could not be parsed'' ?s1)"
      by (rule others_same_trans)
    ultimately show ?thesis using doc ps None by (simp add: run_stages_def)
  next
    case (Some cp)
    obtain cap pgs where cp: "cp = (cap, pgs)" by (cases cp)
    let ?steps = "stage_steps e cfg d ?u calls pgs"
    let ?s4 = "fold perform ?steps s"
    from steps_effect [OF step_of_stage_steps in_order_stage_steps ip]
    have 1: "in_progress d ?u ?s4" "others_same d s ?s4" by simp_all
    from ps Some cp have ne: "pgs \<noteq> []" by (auto dest: parse_stage_pages)
    then have "Put_page (page_row d (hd pgs)) \<in> set ?steps" by (simp add: stage_steps_def)
    from put_page_key_fold [OF this, of s]
    obtain p where "p \<in> set (pages ?s4)" "page_key p = page_key (page_row d (hd pgs))"
      by (metis (no_types, lifting) imageE)
    then have "p \<in> set (pages ?s4)" "page_doc p = d"
      by (simp_all add: page_key_def)
    then have pg: "doc_pages d ?s4 \<noteq> []" by auto
    have r: "run_stages e cfg now d s =
               (case index_error e (chunk_rows cfg d pgs) of
                  Some msg \<Rightarrow> fail_document d msg ?s4
                | None \<Rightarrow> finalize cap (length pgs) now d ?s4)"
      using doc ps Some cp by (simp add: run_stages_def Let_def)
    show ?thesis
    proof (cases "index_error e (chunk_rows cfg d pgs)")
      case None
      from 1(1) doc na ne pg have "doc_ok (finalize cap (length pgs) now d ?s4) a' d"
        by (intro finalize_doc_ok) simp_all
      moreover from 1(2) finalize_others
      have "others_same d s (finalize cap (length pgs) now d ?s4)"
        by (rule others_same_trans)
      ultimately show ?thesis using r None by simp
    next
      case (Some msg)
      from 1(1) doc na have "doc_ok (fail_document d msg ?s4) a' d"
        by (intro fail_document_doc_ok) (simp_all add: in_progress_def)
      moreover from 1(2) fail_document_others have "others_same d s (fail_document d msg ?s4)"
        by (rule others_same_trans)
      ultimately show ?thesis using r Some by simp
    qed
  qed
qed

lemma crashed_run_effect:
  assumes ok: "doc_ok s a d" and doc: "documents s d = Some doc"
    and st: "doc_status doc = Processing"
  shows "doc_ok (crashed_run e cfg n d s) a' d \<and> others_same d s (crashed_run e cfg n d s)"
proof -
  let ?u = "owner doc"
  from ok doc st have ip: "in_progress d ?u s" by (rule doc_ok_in_progress)
  have *: "doc_ok (fold perform (take n sts) s) a' d \<and> others_same d s (fold perform (take n sts) s)"
    if "list_all (step_of d ?u) sts" "in_order s sts" for sts
  proof -
    from that(1) have "list_all (step_of d ?u) (take n sts)"
      by (auto simp: list_all_iff dest: in_set_takeD)
    from steps_effect [OF this in_order_take [OF that(2)] ip] doc st
    show ?thesis by (auto intro: in_progress_doc_ok)
  qed
  obtain calls res where ps: "parse_stage e doc = (calls, res)" by (cases "parse_stage e doc")
  show ?thesis
  proof (cases res)
    case None
    have "list_all (step_of d ?u) (map Invoke calls)" "in_order s (map Invoke calls)"
      by (simp_all add: list_all_iff in_order_rows)
    from * [OF this] doc ps None show ?thesis by (simp add: crashed_run_def)
  next
    case (Some cp)
    obtain cap pgs where cp: "cp = (cap, pgs)" by (cases cp)
    from * [OF step_of_stage_steps in_order_stage_steps] doc ps Some cp
    show ?thesis by (simp add: crashed_run_def)
  qed
qed

lemma keys_distinct_run_stages: "keys_distinct s \<Longrightarrow> keys_distinct (run_stages e cfg now d s)"
  by (auto simp: run_stages_def Let_def keys_distinct_fold keys_distinct_fail_document
      keys_distinct_finalize split: option.splits prod.splits)

lemma keys_distinct_crashed_run: "keys_distinct s \<Longrightarrow> keys_distinct (crashed_run e cfg n d s)"
  by (auto simp: crashed_run_def keys_distinct_fold split: option.splits prod.splits)

subsection \<open>The invariant of the reachable states\<close>

lemma doc_ok_Cons_other: "d' \<noteq> d \<Longrightarrow> doc_ok s (d # a) d' = doc_ok s a d'"
  by (simp add: doc_ok_def split: option.split)

lemma sys_inv_init: "sys_inv (empty_sys, [])"
  by (simp add: sys_inv_def doc_ok_def empty_sys_def keys_distinct_def ids_own_def
      vectors_have_rows_def doc_chunks_def)

lemma sys_inv_upload:
  assumes "sys_inv (s, a)"
  shows "sys_inv (upload d u name path s, a)"
proof (cases "d \<in> set (issued s)")
  case True
  with assms show ?thesis by (simp add: upload_def)
next
  case False
  let ?doc = "\<lparr>owner = u, original_filename = name, storage_path = path,
                 doc_status = Pending, total_pages = None, processing_error = None,
                 processed_at = None, parse_capability = None\<rparr>"
  let ?s = "s\<lparr>documents := (documents s)(d \<mapsto> ?doc), issued := d # issued s\<rparr>"
  from False have up: "upload d u name path s = ?s" by (simp add: upload_def)
  from assms have inv: "distinct a" "set a \<subseteq> set (issued s)"
    "\<And>d. documents s d \<noteq> None \<Longrightarrow> d \<in> set (issued s)" "\<And>d. doc_ok s a d" "keys_distinct s"
    by (auto simp: sys_inv_def)
  from False inv(3) have none: "documents s d = None" by blast
  from False inv(2) have na: "d \<notin> set a" by blast
  from inv(4) [of d] none have ch: "doc_chunks d s = []" and io: "ids_own d s"
    and vr: "vectors_have_rows d s"
    by (simp_all add: doc_ok_def del: doc_chunks_empty)
  from vr ch have en: "set (doc_entries d s) = {}"
    unfolding vectors_have_rows_view by (simp del: set_doc_chunks set_doc_entries doc_chunks_empty)
  have "doc_ok ?s a d'" for d'
  proof (cases "d' = d")
    case True
    have "ids_own d ?s" "vectors_have_rows d ?s" "doc_chunks d ?s = []"
      using io vr ch by (simp_all add: ids_own_def vectors_have_rows_def doc_chunks_def)
    moreover have "doc_entries d ?s = doc_entries d s" by (simp add: doc_entries_def)
    with en have "vectors_of_owner d u ?s"
      unfolding vectors_of_owner_view by (simp del: set_doc_entries doc_entries_empty)
    moreover have "ids_have_vectors d ?s"
      using ch unfolding ids_have_vectors_def by (simp del: set_doc_chunks) 
    ultimately show ?thesis using True na
      unfolding doc_ok_def by (simp del: doc_chunks_empty)
  next
    case False
    have "doc_ok ?s a d' = doc_ok s a d'"
      by (rule doc_ok_views) (use False in \<open>simp_all add: doc_chunks_def doc_entries_def doc_pages_def\<close>)
    with inv(4) show ?thesis by simp
  qed
  moreover have "keys_distinct ?s" using inv(5) by (simp add: keys_distinct_def)
  ultimately show ?thesis using inv(1-3) up by (auto simp: sys_inv_def)
qed

lemma sys_inv_acquire:
  assumes "sys_inv (s, a)" "acquire d s = Some s'"
  shows "sys_inv (s', d # a)"
proof -
  from assms(2) obtain doc where doc: "documents s d = Some doc" "doc_status doc = Pending"
    and s': "s' = s\<lparr>documents := (documents s)(d \<mapsto> doc\<lparr>doc_status := Processing\<rparr>),
                       actions := actions s @ [Set_status d Processing]\<rparr>"
    by (auto simp: acquire_def split: option.splits if_splits)
  from assms(1) have inv: "distinct a" "set a \<subseteq> set (issued s)"
    "\<And>d. documents s d \<noteq> None \<Longrightarrow> d \<in> set (issued s)" "\<And>d. doc_ok s a d" "keys_distinct s"
    by (auto simp: sys_inv_def)
  from inv(4) [of d] doc have na: "d \<notin> set a" by (auto simp: doc_ok_def)
  from inv(4) [of d] doc have "in_progress d (owner doc) s" by (rule in_progress_pending)
  then have "in_progress d (owner doc) s'"
    by (simp add: s' in_progress_def ids_own_def vectors_have_rows_def ids_have_vectors_def
        vectors_of_owner_def)
  then have 1: "doc_ok s' (d # a) d"
    by (rule in_progress_doc_ok [where doc = "doc\<lparr>doc_status := Processing\<rparr>", simplified])
       (simp_all add: s')
  have 2: "doc_ok s' (d # a) d'" if "d' \<noteq> d" for d'
  proof -
    have "doc_ok s' a d' = doc_ok s a d'"
      by (rule doc_ok_views)
         (use that in \<open>simp_all add: s' doc_chunks_def doc_entries_def doc_pages_def\<close>)
    with inv(4) that show ?thesis by (simp add: doc_ok_Cons_other)
  qed
  from 1 2 have 3: "doc_ok s' (d # a) d'" for d' by (cases "d' = d") simp_all
  from inv(3) doc have "d \<in> set (issued s)" by simp
  moreover have "keys_distinct s'" using inv(5) by (simp add: s' keys_distinct_def)
  moreover have "issued s' = issued s" "\<And>d'. documents s' d' \<noteq> None \<longleftrightarrow> documents s d' \<noteq> None"
    using doc by (auto simp: s')
  ultimately show ?thesis using 3 inv(1-3) na
    unfolding sys_inv_def by auto
qed

lemma sys_inv_reclaimed:
  assumes "sys_inv (s, a)" "documents s d = Some doc" "doc_status doc = Processing" "d \<notin> set a"
  shows "sys_inv (s, d # a)"
proof -
  from assms(1) have inv: "distinct a" "set a \<subseteq> set (issued s)"
    "\<And>d. documents s d \<noteq> None \<Longrightarrow> d \<in> set (issued s)" "\<And>d. doc_ok s a d" "keys_distinct s"
    by (auto simp: sys_inv_def)
  from inv(4) [of d] assms(2,3) have "doc_ok s (d # a) d" by (simp add: doc_ok_def)
  with inv(4) have "doc_ok s (d # a) d'" for d'
    by (cases "d' = d") (simp_all add: doc_ok_Cons_other)
  moreover from inv(3) assms(2) have "d \<in> set (issued s)" by simp
  ultimately show ?thesis using inv(1-3,5) assms(4) by (auto simp: sys_inv_def)
qed

lemma sys_inv_died: "sys_inv (s, a) \<Longrightarrow> sys_inv (s, remove1 d a)"
  unfolding sys_inv_def
  by (auto intro: doc_ok_mono [of s a] dest: notin_set_remove1 simp: set_remove1_subset)

lemma sys_inv_step:
  assumes inv: "sys_inv (s, a)" and d: "d \<in> set a"
    and eff: "\<And>doc. documents s d = Some doc \<Longrightarrow> doc_status doc = Processing
               \<Longrightarrow> doc_ok s' (remove1 d a) d \<and> others_same d s s'"
    and none: "documents s d = None \<Longrightarrow> s' = s"
    and kd: "keys_distinct s \<Longrightarrow> keys_distinct s'"
    and dom: "\<And>d'. documents s' d' \<noteq> None \<longleftrightarrow> documents s d' \<noteq> None"
  shows "sys_inv (s', remove1 d a)"
proof (cases "documents s d")
  case None
  with none inv show ?thesis by (simp add: sys_inv_died)
next
  case (Some doc)
  from inv have i: "distinct a" "set a \<subseteq> set (issued s)"
    "\<And>d. documents s d \<noteq> None \<Longrightarrow> d \<in> set (issued s)" "\<And>d. doc_ok s a d" "keys_distinct s"
    by (auto simp: sys_inv_def)
  from i(4) [of d] Some d have "doc_status doc = Processing" by (simp add: doc_ok_def)
  from eff [OF Some this] have 1: "doc_ok s' (remove1 d a) d" and o: "others_same d s s'"
    by simp_all
  have "doc_ok s' (remove1 d a) d'" for d'
  proof (cases "d' = d")
    case True
    with 1 show ?thesis by simp
  next
    case False
    from i(4) have "doc_ok s (remove1 d a) d'" by (rule doc_ok_mono) (rule set_remove1_subset)
    from this o False show ?thesis by (rule doc_ok_others)
  qed
  moreover from o have "issued s' = issued s" by (simp add: others_same_def)
  moreover have "set (remove1 d a) \<subseteq> set a" by (rule set_remove1_subset)
  ultimately show ?thesis using i kd dom
    by (auto simp: sys_inv_def)
qed

lemma run_stages_dom:
  "documents (run_stages e cfg now d s) d' \<noteq> None \<longleftrightarrow> documents s d' \<noteq> None"
  by (auto simp: run_stages_def Let_def fail_document_def finalize_def
      split: option.splits prod.splits if_splits)

lemma crashed_run_documents [simp]: "documents (crashed_run e cfg n d s) = documents s"
  by (simp add: crashed_run_def split: option.splits prod.splits)

lemma sys_inv_finished:
  "sys_inv (s, a) \<Longrightarrow> d \<in> set a \<Longrightarrow> sys_inv (run_stages e cfg now d s, remove1 d a)"
proof (rule sys_inv_step)
  assume inv: "sys_inv (s, a)"
  then have "distinct a" and ok: "doc_ok s a d" by (simp_all add: sys_inv_def)
  then have "d \<notin> set (remove1 d a)" by simp
  with ok show "doc_ok (run_stages e cfg now d s) (remove1 d a) d
        \<and> others_same d s (run_stages e cfg now d s)"
    if "documents s d = Some doc" "doc_status doc = Processing" for doc
    using that by (intro run_stages_effect)
next
  show "documents s d = None \<Longrightarrow> run_stages e cfg now d s = s" by (simp add: run_stages_def)
next
  show "keys_distinct s \<Longrightarrow> keys_distinct (run_stages e cfg now d s)"
    by (rule keys_distinct_run_stages)
next
  show "documents (run_stages e cfg now d s) d' \<noteq> None \<longleftrightarrow> documents s d' \<noteq> None" for d'
    by (rule run_stages_dom)
qed

lemma sys_inv_crashed:
  "sys_inv (s, a) \<Longrightarrow> d \<in> set a \<Longrightarrow> sys_inv (crashed_run e cfg n d s, remove1 d a)"
proof (rule sys_inv_step)
  assume inv: "sys_inv (s, a)"
  then have ok: "doc_ok s a d" by (simp_all add: sys_inv_def)
  then show "doc_ok (crashed_run e cfg n d s) (remove1 d a) d
        \<and> others_same d s (crashed_run e cfg n d s)"
    if "documents s d = Some doc" "doc_status doc = Processing" for doc
    using that by (intro crashed_run_effect)
next
  show "documents s d = None \<Longrightarrow> crashed_run e cfg n d s = s" by (simp add: crashed_run_def)
next
  show "keys_distinct s \<Longrightarrow> keys_distinct (crashed_run e cfg n d s)"
    by (rule keys_distinct_crashed_run)
next
  show "documents (crashed_run e cfg n d s) d' \<noteq> None \<longleftrightarrow> documents s d' \<noteq> None" for d'
    by simp
qed

lemma delete_document_effect:
  assumes vr: "vectors_have_rows d s"
  shows "documents (delete_document d s) = (documents s)(d := None)"
    and "doc_chunks d (delete_document d s) = []"
    and "doc_entries d (delete_document d s) = []"
    and "others_same d s (delete_document d s)"
proof -
  let ?s' = "delete_document d s"
  define ids where "ids = map chunk_key (doc_chunks d s)"
  have vi: "vindex ?s' = filter (\<lambda>en. entry_id en \<notin> set ids) (vindex s)"
    and ch: "chunks ?s' = filter (\<lambda>c. chunk_doc c \<noteq> d) (chunks s)"
    and pg: "pages ?s' = filter (\<lambda>p. page_doc p \<noteq> d) (pages s)"
    and iss: "issued ?s' = issued s"
    and dc: "documents ?s' = (documents s)(d := None)"
    by (simp_all add: delete_document_def Let_def ids_def)
  show "documents ?s' = (documents s)(d := None)" by (rule dc)
  show "doc_chunks d ?s' = []" by (simp add: ch)
  have own: "entry_id en \<in> set ids" if "en \<in> set (vindex s)" "fst (entry_id en) = d" for en
    using vr that unfolding vectors_have_rows_view ids_def by (simp del: set_doc_chunks)
  have "filter (\<lambda>en. fst (entry_id en) = d) (filter (\<lambda>en. entry_id en \<notin> set ids) (vindex s)) = []"
    unfolding filter_empty_conv using own by auto
  then show "doc_entries d ?s' = []" unfolding doc_entries_def vi .
  have oth: "fst v = d" if "v \<in> set ids" for v using that by (auto simp: ids_def)
  have oe: "doc_entries d' ?s' = doc_entries d' s" if d': "d' \<noteq> d" for d'
  proof -
    show ?thesis unfolding doc_entries_def vi filter_filter
      by (rule filter_cong [OF refl]) (use oth d' in blast)
  qed
  have oc: "doc_chunks d' ?s' = doc_chunks d' s" if d': "d' \<noteq> d" for d'
  proof -
    show ?thesis unfolding doc_chunks_def ch filter_filter
      by (rule filter_cong [OF refl]) (use d' in blast)
  qed
  have op: "doc_pages d' ?s' = doc_pages d' s" if d': "d' \<noteq> d" for d'
  proof -
    show ?thesis unfolding doc_pages_def pg filter_filter
      by (rule filter_cong [OF refl]) (use d' in blast)
  qed
  show "others_same d s ?s'"
    unfolding others_same_def using oe oc op by (simp add: dc iss)
qed

lemma keys_distinct_delete_document:
  "keys_distinct s \<Longrightarrow> keys_distinct (delete_document d s)"
  by (simp add: keys_distinct_def delete_document_def Let_def distinct_map_filter)

lemma sys_inv_deleted:
  assumes "sys_inv (s, a)"
  shows "sys_inv (delete_document d s, a)"
proof -
  let ?s' = "delete_document d s"
  from assms have inv: "distinct a" "set a \<subseteq> set (issued s)"
    "\<And>d. documents s d \<noteq> None \<Longrightarrow> d \<in> set (issued s)" "\<And>d. doc_ok s a d" "keys_distinct s"
    by (auto simp: sys_inv_def)
  from inv(4) [of d] have vr: "vectors_have_rows d s" by (simp add: doc_ok_def)
  note eff = delete_document_effect [OF vr]
  have "doc_ok ?s' a d'" for d'
  proof (cases "d' = d")
    case True
    from eff(2) have "ids_own d ?s'" by (auto simp: ids_own_def)
    moreover from eff(3) have "vectors_have_rows d ?s'" by (auto simp: vectors_have_rows_def)
    ultimately show ?thesis using eff(1,2) True
      unfolding doc_ok_def by (simp del: doc_chunks_empty)
  next
    case False
    from inv(4) eff(4) False show ?thesis by (rule doc_ok_others)
  qed
  moreover from eff(4) have "issued ?s' = issued s" by (simp add: others_same_def)
  moreover from inv(5) have "keys_distinct ?s'" by (rule keys_distinct_delete_document)
  ultimately show ?thesis using inv(1-3) eff(1) by (auto simp: sys_inv_def)
qed

lemma search_state:
  "snd (search e t0 t1 u q k include s) = s
   \<or> (\<exists>h. snd (search e t0 t1 u q k include s) = s\<lparr>history := h\<rparr>)"
  by (auto simp: search_def split: sum.splits option.splits)

lemma sys_inv_history: "sys_inv (s, a) \<Longrightarrow> sys_inv (s\<lparr>history := h\<rparr>, a)"
  by (auto simp: sys_inv_def keys_distinct_def)

lemma reachable_sys_inv: "reachable cfg c \<Longrightarrow> sys_inv c"
proof (induction rule: reachable.induct)
  case init
  show ?case by (rule sys_inv_init)
next
  case (uploaded s a d u name path)
  then show ?case by (simp add: sys_inv_upload)
next
  case (started s a d s')
  then show ?case by (simp add: sys_inv_acquire)
next
  case (reclaimed s a d doc)
  then show ?case by (simp add: sys_inv_reclaimed)
next
  case (finished s a d e now)
  then show ?case by (simp add: sys_inv_finished)
next
  case (died s a d)
  then show ?case by (simp add: sys_inv_died)
next
  case (crashed s a d e n)
  then show ?case by (simp add: sys_inv_crashed)
next
  case (deleted s a d)
  then show ?case by (simp add: sys_inv_deleted)
next
  case (searched s a e t0 t1 u q k inc)
  with search_state [of e t0 t1 u q k inc s] show ?case
    by (auto simp: sys_inv_history)
qed


lemma reachable_doc_ok: "reachable cfg (s, a) \<Longrightarrow> doc_ok s a d"
  using reachable_sys_inv [of cfg "(s, a)"] by (simp add: sys_inv_def)

lemma reachable_keys_distinct: "reachable cfg (s, a) \<Longrightarrow> keys_distinct s"
  using reachable_sys_inv [of cfg "(s, a)"] by (simp add: sys_inv_def)

subsection \<open>What the invariant says of one document\<close>

lemma doc_ok_ids_own: "doc_ok s a d \<Longrightarrow> ids_own d s"
  by (simp add: doc_ok_def)

lemma doc_ok_vectors_have_rows: "doc_ok s a d \<Longrightarrow> vectors_have_rows d s"
  by (simp add: doc_ok_def)

lemma doc_ok_vid:
  "doc_ok s a d \<Longrightarrow> c \<in> set (chunks s) \<Longrightarrow> chunk_doc c = d \<Longrightarrow> vector_id c = Some v
   \<Longrightarrow> v = chunk_key c"
  using doc_ok_ids_own [of s a d] unfolding ids_own_def by blast

lemma doc_ok_entry_row:
  "doc_ok s a d \<Longrightarrow> en \<in> set (vindex s) \<Longrightarrow> fst (entry_id en) = d
   \<Longrightarrow> \<exists>c \<in> set (chunks s). chunk_doc c = d \<and> chunk_key c = entry_id en"
proof -
  assume "doc_ok s a d" "en \<in> set (vindex s)" and d: "fst (entry_id en) = d"
  then have "entry_id en \<in> chunk_key ` set (chunks s)"
    using doc_ok_vectors_have_rows [of s a d] unfolding vectors_have_rows_def by blast
  then obtain c where c: "c \<in> set (chunks s)" "chunk_key c = entry_id en" by auto
  with d have "chunk_doc c = d" by (metis fst_chunk_key)
  with c show ?thesis by blast
qed

lemma doc_ok_namespace:
  "doc_ok s a d \<Longrightarrow> documents s d = Some doc \<Longrightarrow> en \<in> set (vindex s)
   \<Longrightarrow> fst (entry_id en) = d \<Longrightarrow> namespace en = owner doc"
proof -
  assume "doc_ok s a d" "documents s d = Some doc"
  then have "vectors_of_owner d (owner doc) s" by (simp add: doc_ok_def)
  then show "en \<in> set (vindex s) \<Longrightarrow> fst (entry_id en) = d \<Longrightarrow> namespace en = owner doc"
    unfolding vectors_of_owner_def by blast
qed

lemma doc_ok_missing:
  "doc_ok s a d \<Longrightarrow> documents s d = None \<Longrightarrow> c \<in> set (chunks s) \<Longrightarrow> chunk_doc c \<noteq> d"
  by (simp add: doc_ok_def)




subsection \<open>Retrieval\<close>

lemma set_map_filter: "set (List.map_filter f xs) = {v. \<exists>x \<in> set xs. f x = Some v}"
  by (induction xs) (auto simp: List.map_filter_simps split: option.splits)

lemma index_query_entries:
  assumes "m \<in> set (index_query e qv ns k idx)"
  shows "\<exists>en \<in> set idx. namespace en = ns \<and> entry_id en = fst m
           \<and> snd m = similarity e qv (entry_vector en)"
proof -
  from assms have "m \<in> set (sort_key (\<lambda>m. (- snd m, snd (fst m)))
       (map (\<lambda>en. (entry_id en, similarity e qv (entry_vector en)))
          (filter (\<lambda>en. namespace en = ns) idx)))"
    unfolding index_query_def by (rule in_set_takeD)
  then show ?thesis by auto
qed

lemma resolve_Some:
  assumes "resolve s m = Some h"
  shows "hit_chunk h \<in> set (chunks s)" "vector_id (hit_chunk h) = Some (fst m)"
    "\<exists>doc. documents s (chunk_doc (hit_chunk h)) = Some doc \<and> doc_status doc = Completed
           \<and> hit_document_name h = original_filename doc"
    "hit_score h = snd m"
    "hit_image h = page_image s (chunk_doc (hit_chunk h)) (hit_page h)"
    "page_numbers (hit_chunk h) \<noteq> []" "hit_page h = hd (page_numbers (hit_chunk h))"
proof -
  from assms obtain c where f: "find (\<lambda>c. vector_id c = Some (fst m)) (chunks s) = Some c"
    by (auto simp: resolve_def split: option.splits)
  then have c: "c \<in> set (chunks s)" "vector_id c = Some (fst m)"
    by (auto simp: find_Some_iff)
  from assms f obtain doc where doc: "documents s (chunk_doc c) = Some doc"
    by (auto simp: resolve_def split: option.splits)
  from assms f doc have st: "doc_status doc = Completed"
    by (auto simp: resolve_def split: if_splits)
  from assms f doc st obtain n ns where n: "page_numbers c = n # ns"
    by (auto simp: resolve_def split: list.splits)
  from assms f doc st n have h: "h = \<lparr>hit_chunk = c, hit_score = snd m,
                               hit_document_name = original_filename doc, hit_page = n,
                               hit_image = page_image s (chunk_doc c) n\<rparr>"
    by (simp add: resolve_def)
  from c doc st n h show "hit_chunk h \<in> set (chunks s)" "vector_id (hit_chunk h) = Some (fst m)"
    "\<exists>doc. documents s (chunk_doc (hit_chunk h)) = Some doc \<and> doc_status doc = Completed
           \<and> hit_document_name h = original_filename doc"
    "hit_score h = snd m"
    "hit_image h = page_image s (chunk_doc (hit_chunk h)) (hit_page h)"
    "page_numbers (hit_chunk h) \<noteq> []" "hit_page h = hd (page_numbers (hit_chunk h))"
    by simp_all
qed

lemma retrieve_hit:
  assumes "retrieve e q u k s = Inr hits" "h \<in> set hits"
  shows "\<exists>qv en doc. embed e q = Some qv \<and> en \<in> set (vindex s) \<and> namespace en = u
           \<and> vector_id (hit_chunk h) = Some (entry_id en)
           \<and> hit_score h = similarity e qv (entry_vector en)
           \<and> hit_chunk h \<in> set (chunks s)
           \<and> documents s (chunk_doc (hit_chunk h)) = Some doc \<and> doc_status doc = Completed
           \<and> hit_document_name h = original_filename doc"
proof -
  from assms obtain qv where qv: "embed e q = Some qv"
    and hs: "hits = List.map_filter (resolve s) (index_query e qv u k (vindex s))"
    by (auto simp: retrieve_def split: option.splits)
  from assms(2) hs obtain m where m: "m \<in> set (index_query e qv u k (vindex s))"
    "resolve s m = Some h"
    by (auto simp: set_map_filter)
  from index_query_entries [OF m(1)] obtain en where en: "en \<in> set (vindex s)"
    "namespace en = u" "entry_id en = fst m" "snd m = similarity e qv (entry_vector en)"
    by blast
  from resolve_Some(3) [OF m(2)] obtain doc where
    "documents s (chunk_doc (hit_chunk h)) = Some doc" "doc_status doc = Completed"
    "hit_document_name h = original_filename doc" by blast
  with qv en resolve_Some(1,2,4) [OF m(2)] show ?thesis by auto
qed


subsection \<open>The order of the orchestrator's actions\<close>








subsection \<open>The claims about ingestion\<close>

text \<open>An ingestion as a whole, and a re-invoked one, are runs of the system.\<close>

lemma reachable_ingest:
  assumes "reachable cfg (s, a)"
  shows "reachable cfg (ingest e cfg now d s, a)"
proof (cases "acquire d s")
  case None
  with assms show ?thesis by (simp add: ingest_def)
next
  case (Some s1)
  from assms Some have "reachable cfg (s1, d # a)" by (rule reachable.started)
  then have "reachable cfg (run_stages e cfg now d s1, remove1 d (d # a))"
    by (rule reachable.finished) simp
  with Some show ?thesis by (simp add: ingest_def)
qed


lemma reachable_uploaded: "reachable cfg (uploaded, [])"
  unfolding uploaded_def by (intro reachable.uploaded reachable.init)












subsection \<open>The claims about retrieval and search\<close>

lemma reachable_two_users: "reachable cfg2 (two_users, [])"
  unfolding two_users_def
  by (intro reachable_ingest reachable.uploaded reachable_uploaded)

text \<open>
  C3. In every reachable state, every chunk that \<open>retrieve(query, A, top_k)\<close> returns
  belongs to a document whose owner is A, whatever the query and \<open>top_k\<close>; so it never
  belongs to a document of another user.
\<close>

theorem retrieval_owner_scoped:
  "reachable cfg (s, a) \<Longrightarrow> retrieve e q ua k s = Inr hits \<Longrightarrow> h \<in> set hits
     \<Longrightarrow> \<exists>doc. documents s (chunk_doc (hit_chunk h)) = Some doc \<and> owner doc = ua"
proof -
  assume r: "reachable cfg (s, a)" and hits: "retrieve e q ua k s = Inr hits" "h \<in> set hits"
  let ?c = "hit_chunk h"
  let ?d = "chunk_doc ?c"
  from retrieve_hit [OF hits] obtain en doc where en: "en \<in> set (vindex s)" "namespace en = ua"
    "vector_id ?c = Some (entry_id en)" and c: "?c \<in> set (chunks s)"
    and doc: "documents s ?d = Some doc" by auto
  from r have ok: "doc_ok s a ?d" by (rule reachable_doc_ok)
  from doc_ok_vid [OF ok c refl en(3)] have "fst (entry_id en) = ?d" by simp
  from doc_ok_namespace [OF ok doc en(1) this] en(2) have "owner doc = ua" by simp
  with doc show ?thesis by simp
qed

text \<open>
  An instance: Alice and Bob have a completed document each; Alice's query returns the
  two chunks of her document and none of Bob's.
\<close>

theorem retrieval_owner_scoped_witness:
  "reachable cfg2 (two_users, [])
   \<and> map_option owner (documents two_users ''d2'') = Some ''bob''
   \<and> map namespace (vindex two_users) = [''alice'', ''alice'', ''bob'', ''bob'']
   \<and> map (chunk_doc \<circ> hit_chunk) (projr (retrieve env_ok (ustr ''q'') ''alice'' 5 two_users))
       = [''d1'', ''d1'']
   \<and> (\<exists>doc. documents two_users ''d1'' = Some doc \<and> owner doc = ''alice'')"
proof -
  let ?h = "\<lparr>hit_chunk =
         \<lparr>chunk_doc = ''d1'', content = ustr ''a b'', chunk_index = 0,
            page_numbers = [1], vector_id = Some (''d1'', 0)\<rparr>,
         hit_score = 0, hit_document_name = ''a.pdf'', hit_page = 1,
         hit_image = Some ''/img/a1.png''\<rparr>"
  let ?h2 = "\<lparr>hit_chunk =
         \<lparr>chunk_doc = ''d1'', content = ustr ''c d'', chunk_index = 1,
            page_numbers = [1], vector_id = Some (''d1'', 1)\<rparr>,
         hit_score = 0, hit_document_name = ''a.pdf'', hit_page = 1,
         hit_image = Some ''/img/a1.png''\<rparr>"
  have r: "retrieve env_ok (ustr ''q'') ''alice'' 5 two_users = Inr [?h, ?h2]" by code_simp
  have b: "map_option owner (documents two_users ''d2'') = Some ''bob''" by code_simp
  have n: "map namespace (vindex two_users) = [''alice'', ''alice'', ''bob'', ''bob'']"
    by code_simp
  have m: "?h \<in> set [?h, ?h2]" by simp
  from retrieval_owner_scoped [OF reachable_two_users r m]
  have "\<exists>doc. documents two_users ''d1'' = Some doc \<and> owner doc = ''alice''" by simp
  with reachable_two_users r b n show ?thesis by simp
qed




end
